theory Spec2Isabelle
  imports Main "HOL-Library.Multiset" "HOL-Library.Sublist"
begin

section \<open>Token location in protobuf documents (\<^verbatim>\<open>src/protobuf-parser.ts\<close>)\<close>

text \<open>
  The parser works on editor documents. Positions, ranges and text lines belong to the
  editor API; their behaviour is modelled here as far as the parser uses it. Line numbers,
  character offsets and string lengths are natural numbers; a string is the list of its
  code units.
\<close>

subsection \<open>Positions, ranges and lines of the editor API\<close>

datatype position = Position (line: nat) (character: nat)

definition isBefore :: "position \<Rightarrow> position \<Rightarrow> bool" where
  "isBefore p q \<longleftrightarrow> line p < line q \<or> (line p = line q \<and> character p < character q)"

text \<open>
  \<^verbatim>\<open>new Range(a, b)\<close> orders its two end points: when \<open>a\<close> is not before \<open>b\<close> they are
  swapped. The constructor keeps its arguments and the two getters do the ordering, so
  that every value of the type is a range the API can build.
\<close>

datatype vrange = new_Range position position

fun range_start :: "vrange \<Rightarrow> position" where
  "range_start (new_Range a b) = (if isBefore a b then a else b)"

fun range_end :: "vrange \<Rightarrow> position" where
  "range_end (new_Range a b) = (if isBefore a b then b else a)"

definition contains_pos :: "vrange \<Rightarrow> position \<Rightarrow> bool" where
  "contains_pos r p \<longleftrightarrow> \<not> isBefore p (range_start r) \<and> \<not> isBefore (range_end r) p"

definition contains :: "vrange \<Rightarrow> vrange \<Rightarrow> bool" where
  "contains r q \<longleftrightarrow> contains_pos r (range_start q) \<and> contains_pos r (range_end q)"

record textline =
  lineNumber :: nat
  text' :: string

text \<open>The range of a line runs from character 0 to the length of its text.\<close>

definition line_range :: "textline \<Rightarrow> vrange" where
  "line_range l = new_Range (Position (lineNumber l) 0) (Position (lineNumber l) (length (text' l)))"

subsection \<open>Error codes, token kinds, match and token ranges\<close>

datatype ExcludeLineRangesErrorCode = RangeBeyondLine | RangeIntersection

datatype LookupErrorCode =
    InvalidExcludeRanges
  | LineNumber
  | NotFound
  | NotImplemented
  | UnexpectedCommentOpen
  | UnexpectedEnumValueName
  | UnexpectedFieldType
  | UnexpectedGroup

datatype TokenKind =
    Comment | Enum | EnumName | EnumValueName | FieldCardinality | FieldName | FieldType
  | Message | MessageName | Package | PackageName | Required | Rpc | RpcName
  | Service | ServiceName

record matchrange =
  fullMatch :: string
  mrange :: vrange

record tokenrange = matchrange +
  closed :: bool

subsection \<open>Range exclusion: \<^verbatim>\<open>excludeLineRanges\<close>\<close>

text \<open>
  The loop over \<^verbatim>\<open>edges\<close> reads the array two entries at a time. The array always has
  an even number of entries (the line start, two per excluded range, the line end), so the
  equation for a single remaining entry is never reached.
\<close>

fun edges_loop :: "nat \<Rightarrow> nat list \<Rightarrow> vrange list \<Rightarrow> ExcludeLineRangesErrorCode + vrange list" where
  "edges_loop ln (a # b # rest) val =
     (if a > b then Inl RangeIntersection
      else edges_loop ln rest
             (if a \<noteq> b then val @ [new_Range (Position ln a) (Position ln b)] else val))"
| "edges_loop ln [a] val = Inr val"
| "edges_loop ln [] val = Inr val"

definition start_character :: "tokenrange \<Rightarrow> nat" where
  "start_character t = character (range_start (mrange t))"

definition end_character :: "tokenrange \<Rightarrow> nat" where
  "end_character t = character (range_end (mrange t))"

definition edges_of :: "vrange \<Rightarrow> tokenrange list \<Rightarrow> nat list" where
  "edges_of lineRange rs =
     [character (range_start lineRange)]
       @ concat (map (\<lambda>t. [start_character t, end_character t]) rs)
       @ [character (range_end lineRange)]"

text \<open>
  The function sorts the array it is given in place, so the model returns the array as the
  caller sees it after the call together with the result. \<^verbatim>\<open>Array.prototype.sort\<close> is
  stable, and so is \<^const>\<open>sort_key\<close>.
\<close>

definition excludeLineRanges ::
  "textline \<Rightarrow> tokenrange list \<Rightarrow> (ExcludeLineRangesErrorCode + vrange list) \<times> tokenrange list" where
  "excludeLineRanges l excludedRanges =
     (if \<not> list_all (\<lambda>t. contains (line_range l) (mrange t)) excludedRanges
      then (Inl RangeBeyondLine, excludedRanges)
      else
        let sorted_ranges = sort_key start_character excludedRanges
        in (edges_loop (lineNumber l) (edges_of (line_range l) sorted_ranges) [], sorted_ranges))"

subsection \<open>Notions used to state the properties of range exclusion\<close>

text \<open>
  Two ranges overlap when each starts before the other ends. Ranges that only touch
  (\<open>r.end = q.start\<close>) do not overlap.
\<close>

definition overlap :: "vrange \<Rightarrow> vrange \<Rightarrow> bool" where
  "overlap r q \<longleftrightarrow> isBefore (range_start r) (range_end q) \<and> isBefore (range_start q) (range_end r)"

text \<open>
  The loop of \<^const>\<open>excludeLineRanges\<close>, read on the start and end offsets of the
  sorted ranges instead of the flat array of edges (\<open>edges_loop_gaps\<close> below shows that
  the two agree), and the condition under which it reports no intersection.
\<close>

definition span :: "tokenrange \<Rightarrow> nat \<times> nat" where
  "span t = (start_character t, end_character t)"

fun gaps_loop :: "nat \<Rightarrow> nat \<Rightarrow> (nat \<times> nat) list \<Rightarrow> nat \<Rightarrow> vrange list
    \<Rightarrow> ExcludeLineRangesErrorCode + vrange list" where
  "gaps_loop ln a [] b val =
     (if a > b then Inl RangeIntersection
      else Inr (if a \<noteq> b then val @ [new_Range (Position ln a) (Position ln b)] else val))"
| "gaps_loop ln a ((s, e) # ps) b val =
     (if a > s then Inl RangeIntersection
      else gaps_loop ln e ps b
             (if a \<noteq> s then val @ [new_Range (Position ln a) (Position ln s)] else val))"

fun chain :: "nat \<Rightarrow> (nat \<times> nat) list \<Rightarrow> nat \<Rightarrow> bool" where
  "chain a [] b \<longleftrightarrow> a \<le> b"
| "chain a ((s, e) # ps) b \<longleftrightarrow> a \<le> s \<and> chain e ps b"

text \<open>\<^verbatim>\<open>Range.isEmpty\<close>, and the character offsets of a line that a range on the line covers.\<close>

definition isEmpty :: "vrange \<Rightarrow> bool" where
  "isEmpty r \<longleftrightarrow> range_start r = range_end r"

definition covers :: "vrange \<Rightarrow> nat \<Rightarrow> bool" where
  "covers r c \<longleftrightarrow> character (range_start r) \<le> c \<and> c < character (range_end r)"

text \<open>
  The pairs of offsets that the loop turns into ranges when it reports no intersection, and
  the range made from such a pair.
\<close>

fun gaps :: "nat \<Rightarrow> (nat \<times> nat) list \<Rightarrow> nat \<Rightarrow> (nat \<times> nat) list" where
  "gaps a [] b = (if a \<noteq> b then [(a, b)] else [])"
| "gaps a ((s, e) # ps) b = (if a \<noteq> s then [(a, s)] else []) @ gaps e ps b"

definition gap_range :: "nat \<Rightarrow> nat \<times> nat \<Rightarrow> vrange" where
  "gap_range ln g = new_Range (Position ln (fst g)) (Position ln (snd g))"

subsection \<open>Sample inputs\<close>

definition wline :: textline where
  "wline = \<lparr>lineNumber = 3, text' = ''message Foo { }''\<rparr>"

definition wtok :: "nat \<Rightarrow> nat \<Rightarrow> tokenrange" where
  "wtok a b = \<lparr>fullMatch = take (b - a) (drop a (text' wline)),
               mrange = new_Range (Position 3 a) (Position 3 b), closed = True\<rparr>"

subsection \<open>Regular expressions\<close>

text \<open>
  The parser builds its patterns with \<^verbatim>\<open>new RegExp(pattern, 'g')\<close>. A compiled pattern is
  represented by what it does at one offset of a subject string: \<open>p s k = Some n\<close> when the
  pattern matches \<open>s\<close> starting at offset \<open>k\<close>, the match found first by the engine having
  \<open>n\<close> code units, and \<open>None\<close> when it does not match at \<open>k\<close>. The search for the leftmost
  offset, the global flag and \<^verbatim>\<open>lastIndex\<close> are modelled by \<open>exec\<close> and \<open>matchAll\<close> below. A
  pattern given as a string (\<^verbatim>\<open>searchText\<close>) stands for its compiled form.
\<close>

type_synonym regexp = "string \<Rightarrow> nat \<Rightarrow> nat option"

text \<open>A literal word, an alternation \<^verbatim>\<open>p|q\<close> (the left alternative first) and \<^verbatim>\<open>^p\<close>.\<close>

definition lit :: "string \<Rightarrow> regexp" where
  "lit w s k = (if prefix w (drop k s) then Some (length w) else None)"

definition alt :: "regexp \<Rightarrow> regexp \<Rightarrow> regexp" where
  "alt p q s k = (case p s k of Some n \<Rightarrow> Some n | None \<Rightarrow> q s k)"

definition bol :: "regexp \<Rightarrow> regexp" where
  "bol p s k = (if k = 0 then p s k else None)"

text \<open>\<^verbatim>\<open>[a-zA-Z_]\<close> and \<^verbatim>\<open>\w\<close>.\<close>

definition is_ident_start :: "char \<Rightarrow> bool" where
  "is_ident_start c \<longleftrightarrow> c \<in> set ''abcdefghijklmnopqrstuvwxyzABCDEFGHIJKLMNOPQRSTUVWXYZ_''"

definition is_word :: "char \<Rightarrow> bool" where
  "is_word c \<longleftrightarrow> is_ident_start c \<or> c \<in> set ''0123456789''"

text \<open>\<^verbatim>\<open>[a-zA-Z_]\w*\<close> at the head of a string: the star is greedy.\<close>

fun ident_len :: "string \<Rightarrow> nat option" where
  "ident_len [] = None"
| "ident_len (c # cs) = (if is_ident_start c then Some (Suc (length (takeWhile is_word cs))) else None)"

text \<open>
  \<^verbatim>\<open>(?:\.[a-zA-Z_]\w*)*\<close> at the head of a string: each round takes a dot and an
  identifier; a dot that no identifier follows ends the repetition before the dot.
\<close>

function dotted_len :: "string \<Rightarrow> nat" where
  "dotted_len s =
     (case s of
        [] \<Rightarrow> 0
      | c # cs \<Rightarrow>
          if c = CHR ''.'' then
            (case ident_len cs of
               None \<Rightarrow> 0
             | Some n \<Rightarrow> Suc n + dotted_len (drop n cs))
          else 0)"
  by pat_completeness auto
termination
  by (relation "measure length") auto

definition qualified_len :: "string \<Rightarrow> nat option" where
  "qualified_len s =
     (case ident_len s of None \<Rightarrow> None | Some n \<Rightarrow> Some (n + dotted_len (drop n s)))"

definition IDENTIFIER :: regexp where
  "IDENTIFIER s k = ident_len (drop k s)"

definition QUALIFIED_IDENTIFIER :: regexp where
  "QUALIFIED_IDENTIFIER s k = qualified_len (drop k s)"

text \<open>
  \<^verbatim>\<open>\.?[a-zA-Z_]\w*(?:\.[a-zA-Z_]\w*)*\<close>: the optional dot is taken when it is there; then
  an identifier must follow it, and without the dot the match would have to start with an
  identifier at the dot, which fails.
\<close>

definition FIELD_TYPE :: regexp where
  "FIELD_TYPE s k =
     (case drop k s of
        [] \<Rightarrow> None
      | c # cs \<Rightarrow>
          if c = CHR ''.'' then map_option Suc (qualified_len cs)
          else qualified_len (c # cs))"

definition COMMENT_OPEN :: regexp where
  "COMMENT_OPEN = alt (lit ''//'') (lit ''/*'')"

definition COMMENT_CLOSE :: regexp where
  "COMMENT_CLOSE = lit ''*/''"

definition REQUIRED :: regexp where
  "REQUIRED = lit ''required''"

definition FIELD_CARDINALITY :: regexp where
  "FIELD_CARDINALITY = alt REQUIRED (alt (lit ''optional'') (lit ''repeated''))"

text \<open>
  \<^verbatim>\<open>^group|message|enum|oneof|reserved|extensions|extend|option|required|optional|repeated\<close>:
  the anchor belongs to the first alternative only.
\<close>

definition FIELD_DECLARATION_EXCEPTIONS :: regexp where
  "FIELD_DECLARATION_EXCEPTIONS =
     alt (bol (lit ''group'')) (alt (lit ''message'') (alt (lit ''enum'') (alt (lit ''oneof'')
       (alt (lit ''reserved'') (alt (lit ''extensions'') (alt (lit ''extend'')
         (alt (lit ''option'') FIELD_CARDINALITY)))))))"

definition MESSAGE :: regexp where
  "MESSAGE = lit ''message''"

definition ENUM :: regexp where
  "ENUM = lit ''enum''"

text \<open>\<^verbatim>\<open>^(?:option|reserved)\<close>.\<close>

definition ENUM_VALUE_NAME_EXCEPTIONS :: regexp where
  "ENUM_VALUE_NAME_EXCEPTIONS = bol (alt (lit ''option'') (lit ''reserved''))"

definition PACKAGE :: regexp where
  "PACKAGE = lit ''package''"

definition RPC :: regexp where
  "RPC = lit ''rpc''"

definition SERVICE :: regexp where
  "SERVICE = lit ''service''"

text \<open>
  \<^verbatim>\<open>exec\<close> on a global pattern with \<^verbatim>\<open>lastIndex = i\<close>: the offsets \<open>i, i + 1, \<dots>, length s\<close>
  are tried in turn, and the first match gives its offset and its text. With \<open>i\<close>
  beyond the end of the subject there is no match.
\<close>

fun exec_scan :: "regexp \<Rightarrow> string \<Rightarrow> nat \<Rightarrow> nat \<Rightarrow> (nat \<times> string) option" where
  "exec_scan p s k 0 = None"
| "exec_scan p s k (Suc n) =
     (case p s k of
        Some m \<Rightarrow> Some (k, take m (drop k s))
      | None \<Rightarrow> exec_scan p s (Suc k) n)"

definition exec :: "regexp \<Rightarrow> string \<Rightarrow> nat \<Rightarrow> (nat \<times> string) option" where
  "exec p s i = exec_scan p s i (Suc (length s) - i)"

text \<open>\<^verbatim>\<open>new RegExp(pattern).test(s)\<close>: a pattern without the global flag searches from 0.\<close>

definition test :: "regexp \<Rightarrow> string \<Rightarrow> bool" where
  "test p s \<longleftrightarrow> exec p s 0 \<noteq> None"

text \<open>
  \<^verbatim>\<open>String.prototype.matchAll\<close> on a global pattern: the matches from \<^verbatim>\<open>lastIndex\<close> on, one
  after the other. After an empty match the next search starts one code unit further,
  after any other match at its end.
\<close>

function matchAll :: "regexp \<Rightarrow> string \<Rightarrow> nat \<Rightarrow> (nat \<times> string) list" where
  "matchAll p s i =
     (case exec p s i of
        None \<Rightarrow> []
      | Some (k, m) \<Rightarrow> (k, m) # matchAll p s (if m = [] then Suc k else k + length m))"
  by pat_completeness auto
termination
proof (relation "measure (\<lambda>(p, s, i). Suc (length s) - i)")
  show "wf (measure (\<lambda>(p, s, i). Suc (length s) - i))"
    by simp
next
  fix p :: regexp and s :: string and i :: nat and x2 :: "nat \<times> string" and k :: nat and m :: string
  assume ex: "exec p s i = Some x2" and x2: "(k, m) = x2"
  have scan: "exec_scan p s j n = Some (k', m') \<Longrightarrow> j \<le> k' \<and> k' < j + n" for j n k' m'
  proof (induction n arbitrary: j)
    case 0
    then show ?case by simp
  next
    case (Suc n)
    show ?case
    proof (cases "p s j")
      case None
      with Suc.prems have "exec_scan p s (Suc j) n = Some (k', m')" by simp
      from Suc.IH [OF this] show ?thesis by simp
    next
      case (Some a)
      with Suc.prems show ?thesis by simp
    qed
  qed
  from ex x2 have "exec_scan p s i (Suc (length s) - i) = Some (k, m)"
    by (simp add: exec_def)
  from scan [OF this] have ik: "i \<le> k" and ks: "k \<le> length s" by linarith+
  have "Suc (length s) - (if m = [] then Suc k else k + length m) < Suc (length s) - i"
  proof (cases "m = []")
    case True
    with ik ks show ?thesis by simp
  next
    case False
    then have "0 < length m" by simp
    with ik ks have "Suc (length s) - (k + length m) < Suc (length s) - i" by linarith
    with False show ?thesis by simp
  qed
  then show "((p, s, if m = [] then Suc k else k + length m), p, s, i)
      \<in> measure (\<lambda>(p, s, i). Suc (length s) - i)"
    by simp
qed

subsection \<open>Line match search: \<^verbatim>\<open>matchRanges\<close>\<close>

text \<open>\<^verbatim>\<open>position.with({ character })\<close>.\<close>

definition with_character :: "position \<Rightarrow> nat \<Rightarrow> position" where
  "with_character p c = Position (line p) c"

text \<open>
  The loop over the matches. The match is appended inside the condition on
  \<^verbatim>\<open>limit\<close>: \<^verbatim>\<open>limit && matches.push(...) >= limit\<close> evaluates the push only when
  \<^verbatim>\<open>limit\<close> is not 0.
\<close>

fun collect_matches :: "textline \<Rightarrow> int \<Rightarrow> (nat \<times> string) list \<Rightarrow> matchrange list \<Rightarrow> matchrange list" where
  "collect_matches l limit [] matches = matches"
| "collect_matches l limit ((c, m) # rest) matches =
     (let range = new_Range (with_character (range_start (line_range l)) c)
                            (with_character (range_end (line_range l)) (c + length m))
      in if limit \<noteq> 0 then
           (let matches' = matches @ [\<lparr>fullMatch = m, mrange = range\<rparr>]
            in if int (length matches') \<ge> limit then matches'
               else collect_matches l limit rest matches')
         else collect_matches l limit rest matches)"

definition matchRanges :: "textline \<Rightarrow> vrange \<Rightarrow> regexp \<Rightarrow> nat \<Rightarrow> int \<Rightarrow> matchrange list" where
  "matchRanges l seekRange pattern lastIndex limit =
     (let start = max (character (range_start seekRange)) lastIndex;
          limit' = (if limit < 0 then 0 else limit)
      in collect_matches l limit'
           (matchAll pattern (take (character (range_end seekRange)) (text' l)) start) [])"

text \<open>The match record that \<^const>\<open>matchRanges\<close> builds from a match at offset \<open>c\<close> with text \<open>m\<close>.\<close>

definition mk_match :: "textline \<Rightarrow> nat \<times> string \<Rightarrow> matchrange" where
  "mk_match l cm =
     \<lparr>fullMatch = snd cm,
      mrange = new_Range (Position (lineNumber l) (fst cm))
                         (Position (lineNumber l) (fst cm + length (snd cm)))\<rparr>"

subsection \<open>Documents and the state of a \<^verbatim>\<open>TokenMap\<close>\<close>

text \<open>
  A document is the list of the texts of its lines. \<^verbatim>\<open>lineAt\<close> throws for a line number
  that is not in the document (the value \<open>None\<close>). \<^verbatim>\<open>getText\<close> gives the text inside a
  range; positions beyond the end of a line are cut back to it, and lines are joined
  by a line feed. The parser only asks for ranges inside one line.
\<close>

type_synonym document = "string list"

definition lineCount :: "document \<Rightarrow> nat" where
  "lineCount d = length d"

definition lineAt :: "document \<Rightarrow> nat \<Rightarrow> textline option" where
  "lineAt d n = (if n < lineCount d then Some \<lparr>lineNumber = n, text' = d ! n\<rparr> else None)"

definition getText :: "document \<Rightarrow> vrange \<Rightarrow> string" where
  "getText d r =
     (let s = range_start r; e = range_end r
      in if length d \<le> line s then []
         else if line s = line e then take (character e - character s) (drop (character s) (d ! line s))
         else drop (character s) (d ! line s)
                @ concat (map (\<lambda>n. CHR 0x0A # d ! n) [Suc (line s) ..< min (line e) (length d)])
                @ (if line e < length d then CHR 0x0A # take (character e) (d ! line e) else []))"

text \<open>
  The private fields \<^verbatim>\<open>#lastIndex\<close>, \<^verbatim>\<open>#line\<close> and \<^verbatim>\<open>#tokens\<close> are the state of the object:
  every method takes the state and returns the state it leaves behind. The field \<^verbatim>\<open>#doc\<close>
  is read-only; it is the argument \<open>d\<close> of every method.
\<close>

record TokenMap =
  tm_lastIndex :: nat
  tm_line :: textline
  tm_tokens :: "TokenKind \<rightharpoonup> tokenrange list"

text \<open>A value of \<^verbatim>\<open>TTokenMap\<close> (a \<^verbatim>\<open>Map\<close>) as the list of its entries, in the order of insertion.\<close>

type_synonym TTokenMap = "(TokenKind \<times> tokenrange list) list"

text \<open>The constructor reads line 0, which every document of the editor has.\<close>

definition new_TokenMap :: "document \<Rightarrow> TokenMap option" where
  "new_TokenMap d =
     (case lineAt d 0 of
        None \<Rightarrow> None
      | Some l \<Rightarrow> Some \<lparr>tm_lastIndex = 0, tm_line = l, tm_tokens = Map.empty\<rparr>)"

fun upsert :: "TokenMap \<Rightarrow> TTokenMap \<Rightarrow> TokenMap" where
  "upsert tm [] = tm"
| "upsert tm ((key, val) # rest) =
     upsert
       (tm\<lparr>tm_tokens :=
            (case tm_tokens tm key of
               Some old \<Rightarrow> (tm_tokens tm)(key \<mapsto> old @ val)
             | None \<Rightarrow> (tm_tokens tm)(key \<mapsto> val))\<rparr>)
       rest"

subsection \<open>Comment scanner: \<^verbatim>\<open>_lineComments\<close> and \<^verbatim>\<open>_parseCurrentLineComments\<close>\<close>

text \<open>
  The \<^verbatim>\<open>do ... while (match !== null)\<close> loop. Its variables are \<^verbatim>\<open>commentClosed\<close>,
  \<^verbatim>\<open>lastIndex\<close>, \<^verbatim>\<open>commentOpenIndex\<close> and \<^verbatim>\<open>ranges\<close>. After a match the \<^verbatim>\<open>lastIndex\<close> of
  the pattern is the end of the match.
\<close>

function lineComments_loop ::
  "document \<Rightarrow> textline \<Rightarrow> bool \<Rightarrow> nat \<Rightarrow> nat \<Rightarrow> tokenrange list
     \<Rightarrow> LookupErrorCode + tokenrange list" where
  "lineComments_loop d l commentClosed lastIndex commentOpenIndex ranges =
     (case exec (if commentClosed then COMMENT_OPEN else COMMENT_CLOSE) (text' l) lastIndex of
        None \<Rightarrow>
          (if \<not> commentClosed then
             (let r = new_Range (with_character (range_start (line_range l)) commentOpenIndex)
                                (range_end (line_range l))
              in Inr (ranges @ [\<lparr>fullMatch = getText d r, mrange = r, closed = False\<rparr>]))
           else Inr ranges)
      | Some (index, m) \<Rightarrow>
          if \<not> commentClosed then
            (let r = new_Range (with_character (range_start (line_range l)) commentOpenIndex)
                               (with_character (range_end (line_range l)) (index + length m))
             in lineComments_loop d l True (index + length m) commentOpenIndex
                  (ranges @ [\<lparr>fullMatch = getText d r, mrange = r, closed = True\<rparr>]))
          else if m = ''//'' then
            (let r = new_Range (with_character (range_start (line_range l)) index)
                               (range_end (line_range l))
             in Inr (ranges @ [\<lparr>fullMatch = getText d r, mrange = r, closed = True\<rparr>]))
          else if m = ''/*'' then
            lineComments_loop d l False (index + length m) index ranges
          else Inl UnexpectedCommentOpen)"
  by pat_completeness auto
termination
proof -
  have scan: "exec_scan p s j n = Some (k, m) \<Longrightarrow>
      j \<le> k \<and> k < j + n \<and> (\<exists>len. p s k = Some len \<and> m = take len (drop k s))" for p s j n k m
  proof (induction n arbitrary: j)
    case 0
    then show ?case by simp
  next
    case (Suc n)
    show ?case
    proof (cases "p s j")
      case None
      with Suc.prems have "exec_scan p s (Suc j) n = Some (k, m)" by simp
      from Suc.IH [OF this] show ?thesis by auto
    next
      case (Some a)
      with Suc.prems show ?thesis by auto
    qed
  qed
  have ex: "exec p s i = Some (k, m) \<Longrightarrow>
      i \<le> k \<and> k \<le> length s \<and> (\<exists>len. p s k = Some len \<and> m = take len (drop k s))" for p s i k m
    unfolding exec_def by (drule scan) auto
  have closes: "Suc (length s) - (k + length m) < Suc (length s) - i"
    if "exec COMMENT_CLOSE s i = Some (k, m)" for s i k m
  proof -
    from ex [OF that] have b: "i \<le> k" "k \<le> length s"
      and "\<exists>len. lit ''*/'' s k = Some len \<and> m = take len (drop k s)"
      unfolding COMMENT_CLOSE_def by blast+
    then have "m = ''*/''"
      by (auto simp: lit_def prefix_def split: if_splits)
    with b show ?thesis by simp
  qed
  have opens: "Suc (length s) - (k + length m) < Suc (length s) - i"
    if "exec p s i = Some (k, m)" "m = ''/*''" for p s i k m
  proof -
    from ex [OF that(1)] have "i \<le> k" "k \<le> length s" by blast+
    with that(2) show ?thesis by simp
  qed
  show ?thesis
    apply (relation "measure (\<lambda>(d, l, c, i, oi, rs). Suc (length (text' l)) - i)")
      apply simp
    subgoal for d l commentClosed lastIndex commentOpenIndex ranges x2 x y
      using closes [of "text' l" lastIndex x y] by simp
    subgoal for d l commentClosed lastIndex commentOpenIndex ranges x2 x y
      using opens [of _ "text' l" lastIndex x y] by auto
    done
qed

definition lineComments :: "document \<Rightarrow> TokenMap \<Rightarrow> bool \<Rightarrow> LookupErrorCode + TTokenMap" where
  "lineComments d tm commentClosed =
     (case lineComments_loop d (tm_line tm) commentClosed (tm_lastIndex tm) 0 [] of
        Inl e \<Rightarrow> Inl e
      | Inr ranges \<Rightarrow> Inr [(Comment, ranges)])"

text \<open>
  \<^verbatim>\<open>_parseCurrentLineComments\<close> stores the comments of the line in the token map and gives
  them back with the state of the multi-line comment at the end of the line:
  \<^verbatim>\<open>comments.at(-1)?.closed ?? commentClosed\<close>.
\<close>

definition parseCurrentLineComments ::
  "document \<Rightarrow> TokenMap \<Rightarrow> bool \<Rightarrow> (LookupErrorCode + bool \<times> tokenrange list) \<times> TokenMap" where
  "parseCurrentLineComments d tm commentClosed =
     (case lineComments d tm commentClosed of
        Inl e \<Rightarrow> (Inl e, tm)
      | Inr lc \<Rightarrow>
          (let tm' = upsert tm lc;
               comments = (case map_of lc Comment of Some c \<Rightarrow> c | None \<Rightarrow> [])
           in (Inr (if comments = [] then commentClosed else closed (last comments), comments), tm')))"

subsection \<open>Lookup tasks\<close>

text \<open>
  A lookup task takes the comments of the current line and the optional \<^verbatim>\<open>searchText\<close>; it
  returns a token map or an error, and may move \<^verbatim>\<open>#lastIndex\<close> and add to \<^verbatim>\<open>#tokens\<close>. The
  tasks are the private methods bound to the object; \<^verbatim>\<open>_name\<close> is the constant \<open>name\<close>
  (\<open>enum'\<close> for \<^verbatim>\<open>_enum\<close>).
\<close>

type_synonym task_result = "(LookupErrorCode + TTokenMap) \<times> TokenMap"

type_synonym TLookupTask = "document \<Rightarrow> TokenMap \<Rightarrow> tokenrange list \<Rightarrow> regexp option \<Rightarrow> task_result"

text \<open>\<^verbatim>\<open>{ ...match, closed: true }\<close>.\<close>

definition closed_token :: "matchrange \<Rightarrow> tokenrange" where
  "closed_token m = \<lparr>fullMatch = fullMatch m, mrange = mrange m, closed = True\<rparr>"

text \<open>The loop of \<^verbatim>\<open>_token\<close> over the search ranges, and \<^verbatim>\<open>_token\<close>.\<close>

fun token_loop :: "TokenMap \<Rightarrow> TokenKind \<Rightarrow> regexp \<Rightarrow> vrange list \<Rightarrow> task_result" where
  "token_loop tm kind searchText [] = (Inl NotFound, tm)"
| "token_loop tm kind searchText (r # rs) =
     (case matchRanges (tm_line tm) r searchText (tm_lastIndex tm) 1 of
        m # _ \<Rightarrow>
          (Inr [(kind, [closed_token m])],
           tm\<lparr>tm_lastIndex := character (range_end (mrange m))\<rparr>)
      | [] \<Rightarrow> token_loop tm kind searchText rs)"

definition token :: "TokenMap \<Rightarrow> TokenKind \<Rightarrow> tokenrange list \<Rightarrow> regexp \<Rightarrow> task_result" where
  "token tm kind excludeRanges searchText =
     (case fst (excludeLineRanges (tm_line tm) excludeRanges) of
        Inl e \<Rightarrow> (Inl InvalidExcludeRanges, tm)
      | Inr searchRanges \<Rightarrow> token_loop tm kind searchText searchRanges)"

text \<open>\<^verbatim>\<open>searchText ?? IDENTIFIER\<close>.\<close>

definition or_default :: "regexp option \<Rightarrow> regexp \<Rightarrow> regexp" where
  "or_default searchText p = (case searchText of None \<Rightarrow> p | Some q \<Rightarrow> q)"

definition enum' :: TLookupTask where
  "enum' d tm excludeRanges searchText = token tm Enum excludeRanges ENUM"

definition enumName :: TLookupTask where
  "enumName d tm excludeRanges searchText =
     token tm EnumName excludeRanges (or_default searchText IDENTIFIER)"

definition enumValueName :: TLookupTask where
  "enumValueName d tm excludeRanges searchText =
     (case token tm EnumValueName excludeRanges (or_default searchText IDENTIFIER) of
        (Inr v, tm') \<Rightarrow>
          (case map_of v EnumValueName of
             Some (t # _) \<Rightarrow>
               if test ENUM_VALUE_NAME_EXCEPTIONS (fullMatch t)
               then (Inl UnexpectedEnumValueName, tm')
               else (Inr v, tm')
           | _ \<Rightarrow> (Inr v, tm'))
      | (Inl e, tm') \<Rightarrow> (Inl e, tm'))"

definition fieldName :: TLookupTask where
  "fieldName d tm excludeRanges searchText =
     token tm FieldName excludeRanges (or_default searchText IDENTIFIER)"

definition validateFieldType ::
  "document \<Rightarrow> matchrange \<Rightarrow> tokenrange option \<Rightarrow> LookupErrorCode + unit" where
  "validateFieldType d fieldType cardinality =
     (let tok = getText d (mrange fieldType)
      in if cardinality \<noteq> None \<and> tok = ''group'' then Inl UnexpectedGroup
         else if cardinality = None \<and> test FIELD_DECLARATION_EXCEPTIONS tok
           then Inl UnexpectedFieldType
         else Inr ())"

text \<open>
  The loop of \<^verbatim>\<open>_fieldType\<close> over the search ranges; \<^verbatim>\<open>cardinality\<close> is a variable of the
  method that the loop may set.
\<close>

fun fieldType_loop ::
  "document \<Rightarrow> TokenMap \<Rightarrow> tokenrange option \<Rightarrow> vrange list \<Rightarrow> task_result" where
  "fieldType_loop d tm cardinality [] = (Inl NotFound, tm)"
| "fieldType_loop d tm cardinality (r # rs) =
     (let matches = matchRanges (tm_line tm) r FIELD_TYPE (tm_lastIndex tm)
                      (if cardinality \<noteq> None then 1 else 2);
          firstMatch = (case matches of [] \<Rightarrow> None | m # _ \<Rightarrow> Some m);
          secondMatch = (case matches of _ # m # _ \<Rightarrow> Some m | _ \<Rightarrow> None)
      in case firstMatch of
           None \<Rightarrow> fieldType_loop d tm cardinality rs
         | Some fm \<Rightarrow>
             (let (tm1, cardinality1, fieldType) =
                    (if cardinality = None \<and> test FIELD_CARDINALITY (getText d (mrange fm))
                     then
                       ((upsert tm [(FieldCardinality, [closed_token fm])])
                           \<lparr>tm_lastIndex := character (range_end (mrange fm))\<rparr>,
                        Some (closed_token fm), secondMatch)
                     else (tm, cardinality, Some fm))
              in case fieldType of
                   None \<Rightarrow> fieldType_loop d tm1 cardinality1 rs
                 | Some ft \<Rightarrow>
                     (case validateFieldType d ft cardinality1 of
                        Inl e \<Rightarrow> (Inl e, tm1)
                      | Inr _ \<Rightarrow>
                          (Inr [(FieldType, [closed_token ft])],
                           tm1\<lparr>tm_lastIndex := character (range_end (mrange ft))\<rparr>))))"

definition fieldType :: TLookupTask where
  "fieldType d tm excludeRanges searchText =
     (let cardinality = (case tm_tokens tm FieldCardinality of Some (c # _) \<Rightarrow> Some c | _ \<Rightarrow> None)
      in case fst (excludeLineRanges (tm_line tm) excludeRanges) of
           Inl e \<Rightarrow> (Inl InvalidExcludeRanges, tm)
         | Inr searchRanges \<Rightarrow> fieldType_loop d tm cardinality searchRanges)"

definition message :: TLookupTask where
  "message d tm excludeRanges searchText = token tm Message excludeRanges MESSAGE"

definition messageName :: TLookupTask where
  "messageName d tm excludeRanges searchText =
     token tm MessageName excludeRanges (or_default searchText IDENTIFIER)"

definition package :: TLookupTask where
  "package d tm excludeRanges searchText = token tm Package excludeRanges PACKAGE"

definition packageName :: TLookupTask where
  "packageName d tm excludeRanges searchText =
     token tm PackageName excludeRanges (or_default searchText QUALIFIED_IDENTIFIER)"

definition required :: TLookupTask where
  "required d tm excludeRanges searchText = token tm Required excludeRanges REQUIRED"

definition rpc :: TLookupTask where
  "rpc d tm excludeRanges searchText = token tm Rpc excludeRanges RPC"

definition rpcName :: TLookupTask where
  "rpcName d tm excludeRanges searchText =
     token tm RpcName excludeRanges (or_default searchText IDENTIFIER)"

definition service :: TLookupTask where
  "service d tm excludeRanges searchText = token tm Service excludeRanges SERVICE"

definition serviceName :: TLookupTask where
  "serviceName d tm excludeRanges searchText =
     token tm ServiceName excludeRanges (or_default searchText IDENTIFIER)"

fun getTasks :: "TokenKind \<Rightarrow> LookupErrorCode + TLookupTask list" where
  "getTasks Comment = Inl NotImplemented"
| "getTasks Enum = Inl NotImplemented"
| "getTasks FieldCardinality = Inl NotImplemented"
| "getTasks FieldType = Inl NotImplemented"
| "getTasks Message = Inl NotImplemented"
| "getTasks Package = Inl NotImplemented"
| "getTasks Rpc = Inl NotImplemented"
| "getTasks Service = Inl NotImplemented"
| "getTasks EnumName = Inr [enum', enumName]"
| "getTasks EnumValueName = Inr [enumValueName]"
| "getTasks FieldName = Inr [fieldType, fieldName]"
| "getTasks MessageName = Inr [message, messageName]"
| "getTasks PackageName = Inr [package, packageName]"
| "getTasks Required = Inr [required]"
| "getTasks RpcName = Inr [rpc, rpcName]"
| "getTasks ServiceName = Inr [service, serviceName]"

subsection \<open>\<^verbatim>\<open>parseFragment\<close>\<close>

text \<open>
  The result of \<^verbatim>\<open>parseFragment\<close>: a range, an error value, or the \<^verbatim>\<open>TypeError\<close> that
  \<^verbatim>\<open>this.#tokens.get(kind)?.[0].range\<close> throws when the entry of the kind is an empty
  array.
\<close>

datatype parse_result = Found vrange | Failed LookupErrorCode | TypeError

text \<open>
  The loop over the pending tasks of one line. It returns the error that ends the call,
  if any, the state, and the tasks still pending: a task that succeeds is taken off the
  list (\<^verbatim>\<open>tasks.shift()\<close>), a task that fails with \<^verbatim>\<open>NotFound\<close> ends the loop.
\<close>

fun tasks_loop ::
  "document \<Rightarrow> TokenMap \<Rightarrow> TLookupTask list \<Rightarrow> tokenrange list \<Rightarrow> regexp option
     \<Rightarrow> LookupErrorCode option \<times> TokenMap \<times> TLookupTask list" where
  "tasks_loop d tm [] ranges searchText = (None, tm, [])"
| "tasks_loop d tm (task # tasks) ranges searchText =
     (case task d tm ranges searchText of
        (Inr v, tm') \<Rightarrow> tasks_loop d (upsert tm' v) tasks ranges searchText
      | (Inl e, tm') \<Rightarrow>
          if e = NotFound then (None, tm', task # tasks) else (Some e, tm', task # tasks))"

text \<open>The loop over the lines, from \<^verbatim>\<open>lineNumber\<close> to the end of the document.\<close>

function lines_loop ::
  "document \<Rightarrow> TokenMap \<Rightarrow> TokenKind \<Rightarrow> regexp option \<Rightarrow> TLookupTask list \<Rightarrow> bool \<Rightarrow> nat
     \<Rightarrow> parse_result \<times> TokenMap" where
  "lines_loop d tm kind searchText tasks commentClosed lineNo =
     (if lineNo < lineCount d then
        (case parseCurrentLineComments d
                (tm\<lparr>tm_line := \<lparr>lineNumber = lineNo, text' = d ! lineNo\<rparr>\<rparr>) commentClosed of
           (Inl e, tm1) \<Rightarrow> (Failed e, tm1)
         | (Inr (commentClosed', ranges), tm1) \<Rightarrow>
             (case tasks_loop d tm1 tasks ranges searchText of
                (Some e, tm2, tasks') \<Rightarrow> (Failed e, tm2)
              | (None, tm2, tasks') \<Rightarrow>
                  (case tm_tokens tm2 kind of
                     Some (t # _) \<Rightarrow> (Found (mrange t), tm2)
                   | Some [] \<Rightarrow> (TypeError, tm2)
                   | None \<Rightarrow>
                       lines_loop d (tm2\<lparr>tm_lastIndex := 0\<rparr>) kind searchText tasks'
                         commentClosed' (Suc lineNo))))
      else (Failed NotFound, tm))"
  by pat_completeness auto
termination
  by (relation "measure (\<lambda>(d, tm, kind, searchText, tasks, commentClosed, lineNo). lineCount d - lineNo)")
    auto

definition parseFragment ::
  "document \<Rightarrow> TokenMap \<Rightarrow> TokenKind \<Rightarrow> nat \<Rightarrow> nat \<Rightarrow> regexp option
     \<Rightarrow> parse_result \<times> TokenMap" where
  "parseFragment d tm kind lineNo lastIndex searchText =
     (let tm0 = tm\<lparr>tm_lastIndex := lastIndex\<rparr>
      in case getTasks kind of
           Inl e \<Rightarrow> (Failed e, tm0)
         | Inr tasks \<Rightarrow>
             (case lineAt d lineNo of
                None \<Rightarrow> (Failed LineNumber, tm0)
              | Some l \<Rightarrow> lines_loop d (tm0\<lparr>tm_line := l\<rparr>) kind searchText tasks True lineNo))"

text \<open>The comment token from offset \<open>a\<close> to offset \<open>b\<close> of a line, as the scanner builds it.\<close>

definition comment_token :: "document \<Rightarrow> textline \<Rightarrow> nat \<Rightarrow> nat \<Rightarrow> bool \<Rightarrow> tokenrange" where
  "comment_token d l a b c =
     (let r = new_Range (Position (lineNumber l) a) (Position (lineNumber l) b)
      in \<lparr>fullMatch = getText d r, mrange = r, closed = c\<rparr>)"


text \<open>A sample document of three lines, its lines and a state on one of its lines.\<close>

definition wdoc :: document where
  "wdoc = [''int32 a = 1; /* opening comment'', ''closing */ string b = 2;'', ''string c = 3; // note'']"

definition wdoc_line :: "nat \<Rightarrow> textline" where
  "wdoc_line n = \<lparr>lineNumber = n, text' = wdoc ! n\<rparr>"

definition wstate :: "nat \<Rightarrow> nat \<Rightarrow> TokenMap" where
  "wstate n i = \<lparr>tm_lastIndex = i, tm_line = wdoc_line n, tm_tokens = Map.empty\<rparr>"





definition record_cardinality :: "TokenMap \<Rightarrow> matchrange \<Rightarrow> TokenMap" where
  "record_cardinality tm m =
     (upsert tm [(FieldCardinality, [closed_token m])])\<lparr>tm_lastIndex := character (range_end (mrange m))\<rparr>"

text \<open>A sample message body and states on its lines.\<close>

definition fdoc :: document where
  "fdoc = [''  required string foo = 1;'', ''  optional group Foo = 2 {'', ''  message Inner {'',
           ''  repeated'', ''  = 5;'', ''  repeated group Bar = 6 {'', ''  myenum kind = 7;'',
           ''  my_optional_type foo = 8;'']"

definition fline :: "nat \<Rightarrow> textline" where
  "fline n = \<lparr>lineNumber = n, text' = fdoc ! n\<rparr>"

definition fstate :: "nat \<Rightarrow> nat \<Rightarrow> TokenMap" where
  "fstate n i = \<lparr>tm_lastIndex = i, tm_line = fline n, tm_tokens = Map.empty\<rparr>"

definition fmatch :: "string \<Rightarrow> nat \<Rightarrow> nat \<Rightarrow> nat \<Rightarrow> matchrange" where
  "fmatch s n a b = \<lparr>fullMatch = s, mrange = new_Range (Position n a) (Position n b)\<rparr>"

text \<open>A task that never decreases \<^verbatim>\<open>#lastIndex\<close>.\<close>

definition nondecreasing :: "TLookupTask \<Rightarrow> bool" where
  "nondecreasing task \<longleftrightarrow>
     (\<forall>d tm ex st res tm'. task d tm ex st = (res, tm') \<longrightarrow> tm_lastIndex tm \<le> tm_lastIndex tm')"

text \<open>
  A task is quiet for a kind when its failure leaves the tokens of the kind as they were,
  and foreign to it when its success, once stored, does so too.
\<close>

definition quiet :: "TLookupTask \<Rightarrow> TokenKind \<Rightarrow> bool" where
  "quiet task kind \<longleftrightarrow>
     (\<forall>d tm ex st e tm'. task d tm ex st = (Inl e, tm') \<longrightarrow> tm_tokens tm' kind = tm_tokens tm kind)"

definition foreign :: "TLookupTask \<Rightarrow> TokenKind \<Rightarrow> bool" where
  "foreign task kind \<longleftrightarrow>
     (\<forall>d tm ex st v tm'. task d tm ex st = (Inr v, tm') \<longrightarrow>
        tm_tokens (upsert tm' v) kind = tm_tokens tm kind)"

text \<open>The state when the loop over the lines enters line \<open>n\<close>.\<close>

definition at_line :: "document \<Rightarrow> TokenMap \<Rightarrow> nat \<Rightarrow> TokenMap" where
  "at_line d tm n = tm\<lparr>tm_line := \<lparr>lineNumber = n, text' = d ! n\<rparr>\<rparr>"

text \<open>
  A sample document of two lines, the state of a new \<^verbatim>\<open>TokenMap\<close> for it, the comment of its
  first line and the state after the comments of the first line are stored.
\<close>

definition mdoc :: document where
  "mdoc = [''// a message follows'', ''message TrickyMsgName {'']"

definition mline :: "nat \<Rightarrow> textline" where
  "mline n = \<lparr>lineNumber = n, text' = mdoc ! n\<rparr>"

definition mfresh :: TokenMap where
  "mfresh = \<lparr>tm_lastIndex = 0, tm_line = mline 0, tm_tokens = Map.empty\<rparr>"

definition mcomment :: tokenrange where
  "mcomment = comment_token mdoc (mline 0) 0 20 True"

definition mstate :: TokenMap where
  "mstate = upsert (at_line mdoc mfresh 0) [(Comment, [mcomment])]"

text \<open>
  An array of ranges that lie in a line, each ending no later than the next one starts.
\<close>

definition ordered_on :: "textline \<Rightarrow> tokenrange list \<Rightarrow> bool" where
  "ordered_on l rs \<longleftrightarrow>
     (\<forall>t\<in>set rs. contains (line_range l) (mrange t)) \<and>
     sorted_wrt (\<lambda>t u. end_character t \<le> start_character u) rs"

section \<open>Properties\<close>

subsection \<open>Ranges\<close>

lemma range_start_le_end:
  "\<not> isBefore (range_end r) (range_start r)"
  by (cases r) (auto simp: isBefore_def)

lemma line_range_start [simp]: "range_start (line_range l) = Position (lineNumber l) 0"
  by (cases "text' l = []") (auto simp: line_range_def isBefore_def)

lemma line_range_end [simp]:
  "range_end (line_range l) = Position (lineNumber l) (length (text' l))"
  by (cases "text' l = []") (auto simp: line_range_def isBefore_def)

lemma contains_line_range:
  "contains (line_range l) r \<longleftrightarrow>
     line (range_start r) = lineNumber l \<and> line (range_end r) = lineNumber l \<and>
     character (range_start r) \<le> character (range_end r) \<and>
     character (range_end r) \<le> length (text' l)"
proof -
  obtain a b where ab: "range_start r = a" "range_end r = b" by simp
  have le: "\<not> isBefore b a" using range_start_le_end [of r] ab by simp
  show ?thesis
    unfolding contains_def contains_pos_def ab line_range_start line_range_end
    using le by (cases a; cases b) (auto simp: isBefore_def)
qed

subsection \<open>Range exclusion\<close>

lemma edges_loop_gaps:
  "edges_loop ln (a # concat (map (\<lambda>(s, e). [s, e]) ps) @ [b]) val = gaps_loop ln a ps b val"
  by (induction ps arbitrary: a val) auto

lemma edges_of_spans:
  "edges_of lr rs = character (range_start lr) # concat (map (\<lambda>(s, e). [s, e]) (map span rs)) @ [character (range_end lr)]"
  by (simp add: edges_of_def span_def comp_def)

lemma gaps_loop_chain:
  "gaps_loop ln a ps b val = Inl RangeIntersection \<longleftrightarrow> \<not> chain a ps b"
  by (induction ps arbitrary: a val) auto

lemma gaps_loop_cases:
  "gaps_loop ln a ps b val = Inl RangeIntersection \<or> (\<exists>v. gaps_loop ln a ps b val = Inr v)"
  by (induction ln a ps b val rule: gaps_loop.induct) simp_all

lemma chain_lower:
  "chain a ps b \<Longrightarrow> \<forall>p\<in>set ps. fst p \<le> snd p \<Longrightarrow> \<forall>p\<in>set ps. a \<le> fst p"
proof (induction ps arbitrary: a)
  case Nil
  then show ?case by simp
next
  case (Cons p ps)
  obtain s e where p: "p = (s, e)" by (cases p)
  from Cons.prems p have "a \<le> s" "s \<le> e" "chain e ps b" by auto
  moreover from Cons.IH [OF \<open>chain e ps b\<close>] Cons.prems(2) have "\<forall>q\<in>set ps. e \<le> fst q" by simp
  ultimately show ?case using p by fastforce
qed

lemma chain_sorted_wrt:
  "chain a ps b \<Longrightarrow> \<forall>p\<in>set ps. fst p \<le> snd p \<Longrightarrow> sorted_wrt (\<lambda>p q. snd p \<le> fst q) ps"
proof (induction ps arbitrary: a)
  case Nil
  then show ?case by simp
next
  case (Cons p ps)
  obtain s e where p: "p = (s, e)" by (cases p)
  from Cons.prems p have c: "chain e ps b" and w: "\<forall>q\<in>set ps. fst q \<le> snd q" by auto
  from chain_lower [OF c w] Cons.IH [OF c w] p show ?case by simp
qed

lemma sorted_wrt_insort_key_sym:
  assumes "symp P"
  shows "sorted_wrt P (insort_key f x xs) \<longleftrightarrow> (\<forall>y\<in>set xs. P x y) \<and> sorted_wrt P xs"
  using assms by (induction xs) (auto simp: set_insort_key dest: sympD)

lemma sorted_wrt_sort_key_sym:
  assumes "symp P"
  shows "sorted_wrt P (sort_key f xs) \<longleftrightarrow> sorted_wrt P xs"
  by (induction xs) (simp_all add: sorted_wrt_insort_key_sym [OF assms])

lemma overlap_sym: "overlap r q \<longleftrightarrow> overlap q r"
  by (auto simp: overlap_def)

lemma overlap_same_line:
  assumes "contains (line_range l) r" "contains (line_range l) q"
  shows "overlap r q \<longleftrightarrow>
     character (range_start r) < character (range_end q) \<and>
     character (range_start q) < character (range_end r)"
  using assms by (simp add: contains_line_range overlap_def isBefore_def)

lemma excludeLineRanges_contained:
  assumes "\<forall>t\<in>set rs. contains (line_range l) (mrange t)"
  shows "fst (excludeLineRanges l rs) =
           gaps_loop (lineNumber l) 0 (map span (sort_key start_character rs)) (length (text' l)) []"
    and "snd (excludeLineRanges l rs) = sort_key start_character rs"
proof -
  have "edges_of (line_range l) (sort_key start_character rs) =
      0 # concat (map (\<lambda>(s, e). [s, e]) (map span (sort_key start_character rs))) @ [length (text' l)]"
    by (simp only: edges_of_spans line_range_start line_range_end position.sel)
  then show "fst (excludeLineRanges l rs) =
           gaps_loop (lineNumber l) 0 (map span (sort_key start_character rs)) (length (text' l)) []"
    using assms by (simp only: excludeLineRanges_def edges_loop_gaps Let_def) (simp add: list_all_iff)
  show "snd (excludeLineRanges l rs) = sort_key start_character rs"
    using assms by (simp add: excludeLineRanges_def list_all_iff Let_def)
qed

lemma excludeLineRanges_beyond:
  assumes "\<exists>t\<in>set rs. \<not> contains (line_range l) (mrange t)"
  shows "excludeLineRanges l rs = (Inl RangeBeyondLine, rs)"
  using assms by (auto simp: excludeLineRanges_def list_all_iff)

lemma success_no_overlap:
  assumes cont: "\<forall>t\<in>set rs. contains (line_range l) (mrange t)"
    and ok: "fst (excludeLineRanges l rs) \<noteq> Inl RangeIntersection"
  shows "sorted_wrt (\<lambda>t u. \<not> overlap (mrange t) (mrange u)) rs"
proof -
  let ?srt = "sort_key start_character rs"
  have ch: "chain 0 (map span ?srt) (length (text' l))"
    using ok excludeLineRanges_contained(1) [OF cont] by (simp add: gaps_loop_chain)
  have wf: "\<forall>p\<in>set (map span ?srt). fst p \<le> snd p"
    using cont by (auto simp: span_def start_character_def end_character_def contains_line_range)
  have "sorted_wrt (\<lambda>p q. snd p \<le> fst q) (map span ?srt)"
    by (rule chain_sorted_wrt [OF ch wf])
  then have "sorted_wrt (\<lambda>t u. end_character t \<le> start_character u) ?srt"
    by (simp add: sorted_wrt_map span_def)
  then have "sorted_wrt (\<lambda>t u. \<not> overlap (mrange t) (mrange u)) ?srt"
  proof (rule sorted_wrt_mono_rel [rotated])
    fix t u
    assume "t \<in> set ?srt" "u \<in> set ?srt" "end_character t \<le> start_character u"
    with cont show "\<not> overlap (mrange t) (mrange u)"
      by (simp add: overlap_same_line [of l] start_character_def end_character_def)
  qed
  moreover have "symp (\<lambda>t u. \<not> overlap (mrange t) (mrange u))"
    by (rule sympI) (simp add: overlap_sym)
  ultimately show ?thesis
    using sorted_wrt_sort_key_sym [of "\<lambda>t u. \<not> overlap (mrange t) (mrange u)" start_character rs]
    by blast
qed

lemma excludeLineRanges_whole_line:
  "text' l \<noteq> [] \<Longrightarrow> fst (excludeLineRanges l []) = Inr [line_range l]"
  by (simp add: excludeLineRanges_def edges_of_def) (simp add: line_range_def)

text \<open>
  C6, as the code has it. With no excluded range the result is the range of the line when
  the line is not empty. The loop drops a pair of edges of zero width, so for an empty line
  the only pair \<open>(0, 0)\<close> is dropped and the result is the empty list.
\<close>

theorem excludeLineRanges_no_ranges:
  "(text' l \<noteq> [] \<longrightarrow> fst (excludeLineRanges l []) = Inr [line_range l]) \<and>
   (text' l = [] \<longrightarrow> fst (excludeLineRanges l []) = Inr [])"
  by (simp add: excludeLineRanges_def edges_of_def) (simp add: line_range_def)

theorem excludeLineRanges_no_ranges_witness:
  "text' wline \<noteq> [] \<and> fst (excludeLineRanges wline []) = Inr [line_range wline] \<and>
   text' (wline\<lparr>text' := []\<rparr>) = [] \<and> fst (excludeLineRanges (wline\<lparr>text' := []\<rparr>) []) = Inr []"
proof -
  have a: "text' wline \<noteq> []" by (simp add: wline_def)
  have b: "text' (wline\<lparr>text' := []\<rparr>) = []" by simp
  note t1 = excludeLineRanges_no_ranges [of wline, THEN conjunct1, THEN mp, OF a]
  note t2 = excludeLineRanges_no_ranges [of "wline\<lparr>text' := []\<rparr>", THEN conjunct2, THEN mp, OF b]
  from a t1 b t2 show ?thesis by (intro conjI)
qed

text \<open>
  C6 as stated, for every line, fails on an empty line: there the result is the empty
  list and not the list holding the (empty) range of the line.
\<close>

theorem excludeLineRanges_no_ranges_counterexample:
  "fst (excludeLineRanges \<lparr>lineNumber = 0, text' = []\<rparr> [])
     \<noteq> Inr [line_range \<lparr>lineNumber = 0, text' = []\<rparr>]"
  by (simp add: excludeLineRanges_def edges_of_def)

text \<open>
  C7. When some excluded range is not contained in the range of the line, the result is
  the error \<open>RangeBeyondLine\<close>. When all of them are contained and two of them (at two
  different places of the array) overlap, the result is the error \<open>RangeIntersection\<close>.
  In both cases the result is an error, never a list of ranges.
\<close>

theorem excludeLineRanges_errors:
  "((\<exists>t\<in>set rs. \<not> contains (line_range l) (mrange t)) \<longrightarrow>
      fst (excludeLineRanges l rs) = Inl RangeBeyondLine) \<and>
   ((\<forall>t\<in>set rs. contains (line_range l) (mrange t)) \<and>
    (\<exists>i j. i < j \<and> j < length rs \<and> overlap (mrange (rs ! i)) (mrange (rs ! j))) \<longrightarrow>
      fst (excludeLineRanges l rs) = Inl RangeIntersection)"
proof (intro conjI impI)
  assume "\<exists>t\<in>set rs. \<not> contains (line_range l) (mrange t)"
  then show "fst (excludeLineRanges l rs) = Inl RangeBeyondLine"
    by (simp add: excludeLineRanges_beyond)
next
  assume h: "(\<forall>t\<in>set rs. contains (line_range l) (mrange t)) \<and>
    (\<exists>i j. i < j \<and> j < length rs \<and> overlap (mrange (rs ! i)) (mrange (rs ! j)))"
  show "fst (excludeLineRanges l rs) = Inl RangeIntersection"
  proof (rule ccontr)
    assume "fst (excludeLineRanges l rs) \<noteq> Inl RangeIntersection"
    with h have "sorted_wrt (\<lambda>t u. \<not> overlap (mrange t) (mrange u)) rs"
      using success_no_overlap [of rs l] by blast
    with h show False
      by (auto simp: sorted_wrt_iff_nth_less)
  qed
qed

theorem excludeLineRanges_errors_witness:
  "\<not> contains (line_range wline) (mrange (wtok 2 40)) \<and>
   fst (excludeLineRanges wline [wtok 2 40]) = Inl RangeBeyondLine \<and>
   contains (line_range wline) (mrange (wtok 2 9)) \<and>
   contains (line_range wline) (mrange (wtok 0 5)) \<and>
   overlap (mrange ([wtok 2 9, wtok 0 5] ! 0)) (mrange ([wtok 2 9, wtok 0 5] ! 1)) \<and>
   fst (excludeLineRanges wline [wtok 2 9, wtok 0 5]) = Inl RangeIntersection"
proof -
  have a: "\<not> contains (line_range wline) (mrange (wtok 2 40))"
    by (simp add: contains_line_range wtok_def wline_def isBefore_def)
  have b1: "contains (line_range wline) (mrange (wtok 2 9))"
    by (simp add: contains_line_range wtok_def wline_def isBefore_def)
  have b2: "contains (line_range wline) (mrange (wtok 0 5))"
    by (simp add: contains_line_range wtok_def wline_def isBefore_def)
  have c: "overlap (mrange ([wtok 2 9, wtok 0 5] ! 0)) (mrange ([wtok 2 9, wtok 0 5] ! 1))"
    by (simp add: overlap_def wtok_def isBefore_def)
  have a': "\<exists>t\<in>set [wtok 2 40]. \<not> contains (line_range wline) (mrange t)"
    using a by simp
  have b: "\<forall>t\<in>set [wtok 2 9, wtok 0 5]. contains (line_range wline) (mrange t)"
    using b1 b2 by simp
  have d: "\<exists>i j. i < j \<and> j < length [wtok 2 9, wtok 0 5] \<and>
      overlap (mrange ([wtok 2 9, wtok 0 5] ! i)) (mrange ([wtok 2 9, wtok 0 5] ! j))"
    using c by (intro exI [of _ 0] exI [of _ 1]) simp
  note thm1 = excludeLineRanges_errors [of "[wtok 2 40]" wline, THEN conjunct1, THEN mp, OF a']
  note thm2 = excludeLineRanges_errors [of "[wtok 2 9, wtok 0 5]" wline, THEN conjunct2, THEN mp, OF conjI [OF b d]]
  from a thm1 b1 b2 c thm2 show ?thesis by (intro conjI)
qed

text \<open>
  C10. When every excluded range is contained in the line, the array of the caller is,
  after the call, the stable sort of the given array by start character: ascending in the
  start characters and a permutation of the given elements. This holds whether the result
  is a list of ranges or the error \<open>RangeIntersection\<close>. When some range is not
  contained, the array is as it was.
\<close>

theorem excludeLineRanges_sorts_argument:
  "((\<forall>t\<in>set rs. contains (line_range l) (mrange t)) \<longrightarrow>
      snd (excludeLineRanges l rs) = sort_key start_character rs \<and>
      sorted (map start_character (snd (excludeLineRanges l rs))) \<and>
      mset (snd (excludeLineRanges l rs)) = mset rs) \<and>
   ((\<exists>t\<in>set rs. \<not> contains (line_range l) (mrange t)) \<longrightarrow>
      snd (excludeLineRanges l rs) = rs)"
  by (simp add: excludeLineRanges_contained(2) excludeLineRanges_beyond)

theorem excludeLineRanges_sorts_argument_witness:
  "contains (line_range wline) (mrange (wtok 10 12)) \<and>
   contains (line_range wline) (mrange (wtok 2 9)) \<and>
   snd (excludeLineRanges wline [wtok 10 12, wtok 2 9]) = [wtok 2 9, wtok 10 12] \<and>
   \<not> contains (line_range wline) (mrange (wtok 2 40)) \<and>
   snd (excludeLineRanges wline [wtok 10 12, wtok 2 40]) = [wtok 10 12, wtok 2 40]"
proof -
  have a1: "contains (line_range wline) (mrange (wtok 10 12))"
    by (simp add: contains_line_range wtok_def wline_def isBefore_def)
  have a2: "contains (line_range wline) (mrange (wtok 2 9))"
    by (simp add: contains_line_range wtok_def wline_def isBefore_def)
  have b0: "\<not> contains (line_range wline) (mrange (wtok 2 40))"
    by (simp add: contains_line_range wtok_def wline_def isBefore_def)
  have a: "\<forall>t\<in>set [wtok 10 12, wtok 2 9]. contains (line_range wline) (mrange t)"
    using a1 a2 by simp
  have b: "\<exists>t\<in>set [wtok 10 12, wtok 2 40]. \<not> contains (line_range wline) (mrange t)"
    using b0 by simp
  have s: "sort_key start_character [wtok 10 12, wtok 2 9] = [wtok 2 9, wtok 10 12]"
    by (simp add: start_character_def wtok_def isBefore_def)
  note t1 = excludeLineRanges_sorts_argument [of "[wtok 10 12, wtok 2 9]" wline,
      THEN conjunct1, THEN mp, OF a, THEN conjunct1, unfolded s]
  note t2 = excludeLineRanges_sorts_argument [of "[wtok 10 12, wtok 2 40]" wline,
      THEN conjunct2, THEN mp, OF b]
  from a1 a2 t1 b0 t2 show ?thesis by (intro conjI)
qed

text \<open>
  What the call returns when it succeeds, and when it does. For excluded ranges that are
  contained in the line, a successful result lists ranges of the line from left to right,
  none of them empty, no two overlapping, none overlapping an excluded range, and every
  character offset of the line is covered either by a range of the result or by an
  excluded range, never by both. When, in addition, no two of the excluded ranges overlap
  and none of them is empty, the call succeeds and its result does not depend on the order
  of the array.
\<close>

lemma gaps_loop_gaps:
  "chain a ps b \<Longrightarrow> gaps_loop ln a ps b val = Inr (val @ map (gap_range ln) (gaps a ps b))"
  by (induction ps arbitrary: a val) (auto simp: gap_range_def)

lemma chain_le:
  "chain a ps b \<Longrightarrow> \<forall>p\<in>set ps. fst p \<le> snd p \<Longrightarrow> a \<le> b"
  by (induction ps arbitrary: a) fastforce+

lemma gaps_bounds:
  "chain a ps b \<Longrightarrow> \<forall>p\<in>set ps. fst p \<le> snd p \<Longrightarrow>
     \<forall>g\<in>set (gaps a ps b). a \<le> fst g \<and> fst g < snd g \<and> snd g \<le> b"
proof (induction ps arbitrary: a)
  case Nil
  then show ?case by auto
next
  case (Cons p ps)
  obtain s e where p: "p = (s, e)" by (cases p)
  from Cons.prems p have as: "a \<le> s" and se: "s \<le> e" and c: "chain e ps b"
    and w: "\<forall>q\<in>set ps. fst q \<le> snd q" by auto
  from chain_le [OF c w] se have sb: "s \<le> b" by simp
  from Cons.IH [OF c w] as se sb p show ?case
    by (auto split: if_splits)
qed

lemma gaps_sorted:
  "chain a ps b \<Longrightarrow> \<forall>p\<in>set ps. fst p \<le> snd p \<Longrightarrow>
     sorted_wrt (\<lambda>g h. snd g \<le> fst h) (gaps a ps b)"
proof (induction ps arbitrary: a)
  case Nil
  then show ?case by simp
next
  case (Cons p ps)
  obtain s e where p: "p = (s, e)" by (cases p)
  from Cons.prems p have as: "a \<le> s" and se: "s \<le> e" and c: "chain e ps b"
    and w: "\<forall>q\<in>set ps. fst q \<le> snd q" by auto
  from gaps_bounds [OF c w] se have "\<forall>g\<in>set (gaps e ps b). s \<le> fst g" by fastforce
  with Cons.IH [OF c w] p show ?case
    by (simp add: sorted_wrt_append)
qed

lemma gaps_cover:
  "chain a ps b \<Longrightarrow> \<forall>p\<in>set ps. fst p \<le> snd p \<Longrightarrow> a \<le> c \<Longrightarrow> c < b \<Longrightarrow>
     (\<exists>g\<in>set (gaps a ps b). fst g \<le> c \<and> c < snd g) \<longleftrightarrow> \<not> (\<exists>p\<in>set ps. fst p \<le> c \<and> c < snd p)"
proof (induction ps arbitrary: a)
  case Nil
  then show ?case by auto
next
  case (Cons p ps)
  obtain s e where p: "p = (s, e)" by (cases p)
  from Cons.prems p have as: "a \<le> s" and se: "s \<le> e" and ch: "chain e ps b"
    and w: "\<forall>q\<in>set ps. fst q \<le> snd q" by auto
  from gaps_bounds [OF ch w] have gl: "\<forall>g\<in>set (gaps e ps b). e \<le> fst g" by blast
  from chain_lower [OF ch w] have pl: "\<forall>q\<in>set ps. e \<le> fst q" .
  show ?case
  proof (cases "c < e")
    case True
    then have no_g: "\<not> (\<exists>g\<in>set (gaps e ps b). fst g \<le> c \<and> c < snd g)"
      using gl by fastforce
    from True have no_p: "\<not> (\<exists>q\<in>set ps. fst q \<le> c \<and> c < snd q)"
      using pl by fastforce
    show ?thesis
    proof (cases "c < s")
      case True
      with Cons.prems(3) as have "a \<noteq> s" "a \<le> c" by simp_all
      with True no_p p show ?thesis by auto
    next
      case False
      with \<open>c < e\<close> no_g p show ?thesis by auto
    qed
  next
    case False
    then have ec: "e \<le> c" by simp
    from Cons.IH [OF ch w ec Cons.prems(4)] ec se p show ?thesis
      by auto
  qed
qed

lemma disjoint_chain:
  assumes "sorted (map fst ps)"
    and "\<forall>p\<in>set ps. fst p < snd p"
    and "sorted_wrt (\<lambda>p q. \<not> (fst p < snd q \<and> fst q < snd p)) ps"
    and "\<forall>p\<in>set ps. a \<le> fst p \<and> snd p \<le> b"
    and "a \<le> b"
  shows "chain a ps b"
  using assms
proof (induction ps arbitrary: a)
  case Nil
  then show ?case by simp
next
  case (Cons p ps)
  obtain s e where p: "p = (s, e)" by (cases p)
  from Cons.prems p have as: "a \<le> s" and se: "s < e" and eb: "e \<le> b" by auto
  have "\<forall>q\<in>set ps. e \<le> fst q \<and> snd q \<le> b"
  proof
    fix q assume q: "q \<in> set ps"
    with Cons.prems p have "s \<le> fst q" "fst q < snd q" "\<not> (s < snd q \<and> fst q < e)" "snd q \<le> b"
      by auto
    then show "e \<le> fst q \<and> snd q \<le> b" by simp
  qed
  moreover from Cons.prems have "sorted (map fst ps)" "\<forall>p\<in>set ps. fst p < snd p"
    "sorted_wrt (\<lambda>p q. \<not> (fst p < snd q \<and> fst q < snd p)) ps" by simp_all
  ultimately have "chain e ps b"
    using eb by (intro Cons.IH)
  with as p show ?case by simp
qed

lemma gaps_disjoint:
  "chain a ps b \<Longrightarrow> \<forall>p\<in>set ps. fst p \<le> snd p \<Longrightarrow>
     \<forall>g\<in>set (gaps a ps b). \<forall>p\<in>set ps. snd g \<le> fst p \<or> snd p \<le> fst g"
proof (induction ps arbitrary: a)
  case Nil
  then show ?case by simp
next
  case (Cons p ps)
  obtain s e where p: "p = (s, e)" by (cases p)
  from Cons.prems p have as: "a \<le> s" and se: "s \<le> e" and ch: "chain e ps b"
    and w: "\<forall>q\<in>set ps. fst q \<le> snd q" by auto
  from gaps_bounds [OF ch w] have gl: "\<forall>g\<in>set (gaps e ps b). e \<le> fst g" by blast
  from chain_lower [OF ch w] have pl: "\<forall>q\<in>set ps. e \<le> fst q" .
  show ?case
  proof (intro ballI)
    fix g q assume g: "g \<in> set (gaps a (p # ps) b)" and q: "q \<in> set (p # ps)"
    from g p consider "g = (a, s)" | "g \<in> set (gaps e ps b)"
      by (auto split: if_splits)
    then show "snd g \<le> fst q \<or> snd q \<le> fst g"
    proof cases
      case 1
      with q p pl se show ?thesis by fastforce
    next
      case 2
      show ?thesis
      proof (cases "q = p")
        case True
        with 2 gl p show ?thesis by fastforce
      next
        case False
        with q have "q \<in> set ps" by simp
        with Cons.IH [OF ch w] 2 show ?thesis by blast
      qed
    qed
  qed
qed

lemma gap_range_ends:
  assumes "fst g \<le> snd g"
  shows "range_start (gap_range ln g) = Position ln (fst g)"
    and "range_end (gap_range ln g) = Position ln (snd g)"
  using assms by (auto simp: gap_range_def isBefore_def)

lemma span_wf:
  assumes "\<forall>t\<in>set rs. contains (line_range l) (mrange t)"
  shows "\<forall>p\<in>set (map span (sort_key start_character rs)). fst p \<le> snd p"
  using assms by (auto simp: span_def start_character_def end_character_def contains_line_range)

lemma excludeLineRanges_gaps:
  assumes cont: "\<forall>t\<in>set rs. contains (line_range l) (mrange t)"
    and ok: "fst (excludeLineRanges l rs) = Inr v"
  shows "chain 0 (map span (sort_key start_character rs)) (length (text' l))"
    and "v = map (gap_range (lineNumber l))
               (gaps 0 (map span (sort_key start_character rs)) (length (text' l)))"
proof -
  from ok show ch: "chain 0 (map span (sort_key start_character rs)) (length (text' l))"
    using excludeLineRanges_contained(1) [OF cont] gaps_loop_chain
    by (metis Inl_Inr_False)
  from gaps_loop_gaps [OF ch, of "lineNumber l" "[]"] ok
  show "v = map (gap_range (lineNumber l))
               (gaps 0 (map span (sort_key start_character rs)) (length (text' l)))"
    using excludeLineRanges_contained(1) [OF cont] by simp
qed

lemma excludeLineRanges_partition:
  assumes cont: "\<forall>t\<in>set rs. contains (line_range l) (mrange t)"
    and ok: "fst (excludeLineRanges l rs) = Inr v"
  shows "sorted_wrt (\<lambda>r q. \<not> isBefore (range_start q) (range_end r)) v"
    and "\<forall>r\<in>set v. contains (line_range l) r \<and> \<not> isEmpty r"
    and "\<forall>c<length (text' l). (\<exists>r\<in>set v. covers r c) \<longleftrightarrow> \<not> (\<exists>t\<in>set rs. covers (mrange t) c)"
    and "\<forall>r\<in>set v. \<forall>t\<in>set rs. \<not> overlap r (mrange t)"
    and "sorted_wrt (\<lambda>r q. \<not> overlap r q) v"
proof -
  let ?ps = "map span (sort_key start_character rs)"
  let ?gs = "gaps 0 ?ps (length (text' l))"
  let ?ln = "lineNumber l"
  note ch = excludeLineRanges_gaps(1) [OF cont ok]
  note v = excludeLineRanges_gaps(2) [OF cont ok]
  note wf = span_wf [OF cont]
  note gb = gaps_bounds [OF ch wf]
  have ends: "range_start (gap_range ?ln g) = Position ?ln (fst g)"
    "range_end (gap_range ?ln g) = Position ?ln (snd g)" if "g \<in> set ?gs" for g
  proof -
    from gb that have "fst g \<le> snd g" by fastforce
    then show "range_start (gap_range ?ln g) = Position ?ln (fst g)"
      "range_end (gap_range ?ln g) = Position ?ln (snd g)"
      by (rule gap_range_ends)+
  qed
  have "sorted_wrt (\<lambda>g h. \<not> isBefore (range_start (gap_range ?ln h)) (range_end (gap_range ?ln g))) ?gs"
  proof (rule sorted_wrt_mono_rel [OF _ gaps_sorted [OF ch wf]])
    fix g h assume "g \<in> set ?gs" "h \<in> set ?gs" "snd g \<le> fst h"
    then show "\<not> isBefore (range_start (gap_range ?ln h)) (range_end (gap_range ?ln g))"
      by (simp add: ends isBefore_def)
  qed
  then show ltr: "sorted_wrt (\<lambda>r q. \<not> isBefore (range_start q) (range_end r)) v"
    by (simp add: v sorted_wrt_map)
  show cv: "\<forall>r\<in>set v. contains (line_range l) r \<and> \<not> isEmpty r"
    using gb by (auto simp: v contains_line_range ends isEmpty_def)
  show "\<forall>c<length (text' l). (\<exists>r\<in>set v. covers r c) \<longleftrightarrow> \<not> (\<exists>t\<in>set rs. covers (mrange t) c)"
  proof (intro allI impI)
    fix c assume c: "c < length (text' l)"
    have "(\<exists>r\<in>set v. covers r c) \<longleftrightarrow> (\<exists>g\<in>set ?gs. fst g \<le> c \<and> c < snd g)"
      by (auto simp: v covers_def ends)
    also have "\<dots> \<longleftrightarrow> \<not> (\<exists>p\<in>set ?ps. fst p \<le> c \<and> c < snd p)"
      using gaps_cover [OF ch wf _ c] by simp
    also have "\<dots> \<longleftrightarrow> \<not> (\<exists>t\<in>set rs. covers (mrange t) c)"
      by (auto simp: covers_def span_def start_character_def end_character_def)
    finally show "(\<exists>r\<in>set v. covers r c) \<longleftrightarrow> \<not> (\<exists>t\<in>set rs. covers (mrange t) c)" .
  qed
  show "\<forall>r\<in>set v. \<forall>t\<in>set rs. \<not> overlap r (mrange t)"
  proof (intro ballI)
    fix r t assume r: "r \<in> set v" and t: "t \<in> set rs"
    from r obtain g where g: "g \<in> set ?gs" "r = gap_range ?ln g"
      by (auto simp: v)
    from t have "span t \<in> set ?ps" by simp
    with gaps_disjoint [OF ch wf] g(1)
    have "snd g \<le> fst (span t) \<or> snd (span t) \<le> fst g" by blast
    moreover from cv r cont t have "contains (line_range l) r" "contains (line_range l) (mrange t)"
      by blast+
    ultimately show "\<not> overlap r (mrange t)"
      by (auto simp: overlap_same_line [of l] g(2) ends [OF g(1)] span_def
          start_character_def end_character_def)
  qed
  show "sorted_wrt (\<lambda>r q. \<not> overlap r q) v"
    by (rule sorted_wrt_mono_rel [OF _ ltr]) (simp add: overlap_def)
qed

lemma nonempty_span:
  assumes "contains (line_range l) (mrange t)" "\<not> isEmpty (mrange t)"
  shows "start_character t < end_character t"
proof -
  obtain a b where ab: "range_start (mrange t) = a" "range_end (mrange t) = b" by simp
  with assms show ?thesis
    by (cases a; cases b) (auto simp: contains_line_range isEmpty_def start_character_def end_character_def)
qed

lemma sorted_disjoint:
  assumes cont: "\<forall>t\<in>set rs. contains (line_range l) (mrange t)"
    and disj: "sorted_wrt (\<lambda>t u. \<not> overlap (mrange t) (mrange u)) rs"
  shows "sorted_wrt (\<lambda>p q. \<not> (fst p < snd q \<and> fst q < snd p)) (map span (sort_key start_character rs))"
proof -
  have "symp (\<lambda>t u. \<not> overlap (mrange t) (mrange u))"
    by (rule sympI) (simp add: overlap_sym)
  with disj have "sorted_wrt (\<lambda>t u. \<not> overlap (mrange t) (mrange u)) (sort_key start_character rs)"
    using sorted_wrt_sort_key_sym [of "\<lambda>t u. \<not> overlap (mrange t) (mrange u)" start_character rs]
    by blast
  then have "sorted_wrt (\<lambda>t u. \<not> (fst (span t) < snd (span u) \<and> fst (span u) < snd (span t)))
      (sort_key start_character rs)"
  proof (rule sorted_wrt_mono_rel [rotated])
    fix t u
    assume "t \<in> set (sort_key start_character rs)" "u \<in> set (sort_key start_character rs)"
      "\<not> overlap (mrange t) (mrange u)"
    with cont show "\<not> (fst (span t) < snd (span u) \<and> fst (span u) < snd (span t))"
      by (simp add: overlap_same_line [of l] span_def start_character_def end_character_def)
  qed
  then show ?thesis
    by (simp add: sorted_wrt_map)
qed

lemma excludeLineRanges_succeeds:
  assumes cont: "\<forall>t\<in>set rs. contains (line_range l) (mrange t)"
    and disj: "sorted_wrt (\<lambda>t u. \<not> overlap (mrange t) (mrange u)) rs"
    and ne: "\<forall>t\<in>set rs. \<not> isEmpty (mrange t)"
  shows "\<exists>v. fst (excludeLineRanges l rs) = Inr v"
proof -
  let ?ps = "map span (sort_key start_character rs)"
  have "sorted (map fst ?ps)"
    by (simp add: comp_def span_def)
  moreover have "\<forall>p\<in>set ?ps. fst p < snd p"
    using cont ne by (auto simp: span_def nonempty_span)
  moreover have "\<forall>p\<in>set ?ps. 0 \<le> fst p \<and> snd p \<le> length (text' l)"
    using cont by (auto simp: span_def end_character_def contains_line_range)
  ultimately have "chain 0 ?ps (length (text' l))"
    using sorted_disjoint [OF cont disj] by (intro disjoint_chain) simp_all
  from gaps_loop_gaps [OF this, of "lineNumber l" "[]"] show ?thesis
    using excludeLineRanges_contained(1) [OF cont] by simp
qed

lemma disjoint_distinct_starts:
  assumes cont: "\<forall>t\<in>set rs. contains (line_range l) (mrange t)"
    and disj: "sorted_wrt (\<lambda>t u. \<not> overlap (mrange t) (mrange u)) rs"
    and ne: "\<forall>t\<in>set rs. \<not> isEmpty (mrange t)"
  shows "distinct (map start_character rs)"
  using assms
proof (induction rs)
  case Nil
  then show ?case by simp
next
  case (Cons t rs)
  have "start_character t \<noteq> start_character u" if u: "u \<in> set rs" for u
  proof
    assume eq: "start_character t = start_character u"
    from Cons.prems u have "start_character t < end_character t" "start_character u < end_character u"
      using nonempty_span [of l t] nonempty_span [of l u] by auto
    with eq Cons.prems(1) u have "overlap (mrange t) (mrange u)"
      by (simp add: overlap_same_line [of l] start_character_def end_character_def)
    with Cons.prems(2) u show False by simp
  qed
  with Cons show ?case by auto
qed

lemma sort_key_mset_unique:
  assumes "mset xs = mset ys" "distinct (map f xs)"
  shows "sort_key f xs = sort_key f ys"
proof -
  from assms(1) have s: "set xs = set ys" by (rule mset_eq_setD)
  from assms have dy: "distinct (map f ys)"
    by (metis distinct_map mset_eq_imp_distinct_iff s)
  have "map f (sort_key f xs) = map f (sort_key f ys)"
  proof (rule sorted_distinct_set_unique)
    show "sorted (map f (sort_key f xs))" "sorted (map f (sort_key f ys))"
      by (rule sorted_sort_key)+
    show "distinct (map f (sort_key f xs))"
      using assms(2) by (simp add: distinct_map)
    show "distinct (map f (sort_key f ys))"
      using dy by (simp add: distinct_map)
    show "set (map f (sort_key f xs)) = set (map f (sort_key f ys))"
      using s by simp
  qed
  moreover from assms(2) s have "inj_on f (set (sort_key f xs) \<union> set (sort_key f ys))"
    by (simp add: distinct_map)
  ultimately show ?thesis
    by (simp add: inj_on_map_eq_map)
qed

lemma excludeLineRanges_order_independent:
  assumes cont: "\<forall>t\<in>set rs. contains (line_range l) (mrange t)"
    and disj: "sorted_wrt (\<lambda>t u. \<not> overlap (mrange t) (mrange u)) rs"
    and ne: "\<forall>t\<in>set rs. \<not> isEmpty (mrange t)"
    and perm: "mset rs' = mset rs"
  shows "fst (excludeLineRanges l rs') = fst (excludeLineRanges l rs)"
proof -
  from perm have "set rs' = set rs" by (rule mset_eq_setD)
  with cont have cont': "\<forall>t\<in>set rs'. contains (line_range l) (mrange t)" by simp
  from perm disjoint_distinct_starts [OF cont disj ne]
  have "sort_key start_character rs = sort_key start_character rs'"
    by (intro sort_key_mset_unique) simp_all
  then show ?thesis
    by (simp add: excludeLineRanges_contained(1) [OF cont] excludeLineRanges_contained(1) [OF cont'])
qed

text \<open>
  C1. The claim says that for excluded ranges that are contained in the line and do not
  overlap the call succeeds, and that the order in which they are supplied does not matter.
  The array is sorted by start character only, and the sort is stable: when a range of zero
  width starts where a wider range starts, the two keep the order in which they were given.
  With the wider range first, the edges \<open>[0, 5, 10, 5, 5, 15]\<close> decrease from 10 to 5 and the
  result is the error \<open>RangeIntersection\<close>; with the empty range first the same two ranges
  are accepted.
\<close>

theorem excludeLineRanges_order_dependent:
  "contains (line_range wline) (mrange (wtok 5 10)) \<and>
   contains (line_range wline) (mrange (wtok 5 5)) \<and>
   \<not> overlap (mrange (wtok 5 10)) (mrange (wtok 5 5)) \<and>
   fst (excludeLineRanges wline [wtok 5 10, wtok 5 5]) = Inl RangeIntersection \<and>
   fst (excludeLineRanges wline [wtok 5 5, wtok 5 10]) =
     Inr [new_Range (Position 3 0) (Position 3 5), new_Range (Position 3 10) (Position 3 15)]"
proof -
  have c: "contains (line_range wline) (mrange (wtok 5 10))" "contains (line_range wline) (mrange (wtok 5 5))"
    by (simp_all add: contains_line_range wtok_def wline_def isBefore_def)
  have o: "\<not> overlap (mrange (wtok 5 10)) (mrange (wtok 5 5))"
    by (simp add: overlap_def wtok_def isBefore_def)
  have st: "start_character (wtok 5 10) = 5" "start_character (wtok 5 5) = 5"
    by (simp_all add: start_character_def wtok_def isBefore_def)
  have sp: "span (wtok 5 10) = (5, 10)" "span (wtok 5 5) = (5, 5)"
    by (simp_all add: span_def start_character_def end_character_def wtok_def isBefore_def)
  have l: "length (text' wline) = 15" "lineNumber wline = 3"
    by (simp_all add: wline_def)
  have r1: "fst (excludeLineRanges wline [wtok 5 10, wtok 5 5]) = Inl RangeIntersection"
    using c by (simp add: excludeLineRanges_contained(1) st sp l)
  have r2: "fst (excludeLineRanges wline [wtok 5 5, wtok 5 10]) =
     Inr [new_Range (Position 3 0) (Position 3 5), new_Range (Position 3 10) (Position 3 15)]"
    using c by (simp add: excludeLineRanges_contained(1) st sp l)
  from c o r1 r2 show ?thesis by (intro conjI)
qed

subsection \<open>Regular expressions and line match search\<close>

declare matchAll.simps [simp del]

lemma exec_scan_Some:
  "exec_scan p s j n = Some (k, m) \<Longrightarrow>
     j \<le> k \<and> k < j + n \<and> (\<exists>len. p s k = Some len \<and> m = take len (drop k s)) \<and>
     (\<forall>i. j \<le> i \<and> i < k \<longrightarrow> p s i = None)"
proof (induction n arbitrary: j)
  case 0
  then show ?case by simp
next
  case (Suc n)
  show ?case
  proof (cases "p s j")
    case None
    with Suc.prems have "exec_scan p s (Suc j) n = Some (k, m)" by simp
    from Suc.IH [OF this]
    have a: "Suc j \<le> k" "k < Suc j + n" "\<exists>len. p s k = Some len \<and> m = take len (drop k s)"
      and b: "\<forall>i. Suc j \<le> i \<and> i < k \<longrightarrow> p s i = None"
      by blast+
    have "p s i = None" if "j \<le> i" "i < k" for i
    proof (cases "i = j")
      case True
      with None show ?thesis by simp
    next
      case False
      with that have "Suc j \<le> i" by simp
      with b that show ?thesis by blast
    qed
    with a show ?thesis by simp
  next
    case (Some a)
    with Suc.prems have km: "k = j" "m = take a (drop j s)" by auto
    have "j \<le> k" "k < j + Suc n" using km by simp_all
    moreover have "\<exists>len. p s k = Some len \<and> m = take len (drop k s)" using Some km by simp
    moreover have "\<forall>i. j \<le> i \<and> i < k \<longrightarrow> p s i = None" using km by auto
    ultimately show ?thesis by blast
  qed
qed

lemma exec_scan_None:
  "exec_scan p s j n = None \<longleftrightarrow> (\<forall>i. j \<le> i \<and> i < j + n \<longrightarrow> p s i = None)"
proof (induction n arbitrary: j)
  case 0
  then show ?case by auto
next
  case (Suc n)
  show ?case
  proof (cases "p s j")
    case None
    have "(\<forall>i. j \<le> i \<and> i < j + Suc n \<longrightarrow> p s i = None) \<longleftrightarrow>
          (\<forall>i. Suc j \<le> i \<and> i < Suc j + n \<longrightarrow> p s i = None)"
      using None by (auto simp: le_Suc_eq Suc_le_eq) (metis le_neq_implies_less)
    with None Suc.IH [of "Suc j"] show ?thesis by simp
  next
    case (Some a)
    then show ?thesis by auto
  qed
qed

lemma exec_Some:
  "exec p s i = Some (k, m) \<Longrightarrow>
     i \<le> k \<and> k \<le> length s \<and> (\<exists>len. p s k = Some len \<and> m = take len (drop k s)) \<and>
     (\<forall>j. i \<le> j \<and> j < k \<longrightarrow> p s j = None)"
  unfolding exec_def by (drule exec_scan_Some) auto

lemma exec_None: "exec p s i = None \<longleftrightarrow> (\<forall>k. i \<le> k \<and> k \<le> length s \<longrightarrow> p s k = None)"
  unfolding exec_def exec_scan_None by (auto simp: less_Suc_eq_le)

lemma exec_match_length:
  "exec p s i = Some (k, m) \<Longrightarrow> k + length m \<le> length s"
  by (drule exec_Some) auto

lemma matchAll_bounds:
  "(k, m) \<in> set (matchAll p s i) \<Longrightarrow> i \<le> k \<and> k + length m \<le> length s"
proof (induction p s i rule: matchAll.induct)
  case (1 p s i)
  show ?case
  proof (cases "exec p s i")
    case None
    with "1.prems" show ?thesis by (simp add: matchAll.simps [of p s i])
  next
    case (Some x)
    obtain k0 m0 where x: "x = (k0, m0)" by (cases x)
    let ?next = "if m0 = [] then Suc k0 else k0 + length m0"
    from Some x have ex: "exec p s i = Some (k0, m0)" by simp
    from "1.prems" ex have "(k, m) = (k0, m0) \<or> (k, m) \<in> set (matchAll p s ?next)"
      by (simp add: matchAll.simps [of p s i])
    then show ?thesis
    proof
      assume "(k, m) = (k0, m0)"
      with exec_Some [OF ex] exec_match_length [OF ex] show ?thesis by simp
    next
      assume "(k, m) \<in> set (matchAll p s ?next)"
      from "1.IH" [OF Some x [symmetric] this] exec_Some [OF ex]
      show ?thesis by (auto split: if_splits)
    qed
  qed
qed

lemma matchAll_increasing:
  "sorted_wrt (\<lambda>a b. fst a + length (snd a) \<le> fst b \<and> fst a < fst b) (matchAll p s i)"
proof (induction p s i rule: matchAll.induct)
  case (1 p s i)
  show ?case
  proof (cases "exec p s i")
    case None
    then show ?thesis by (simp add: matchAll.simps [of p s i])
  next
    case (Some x)
    obtain k0 m0 where x: "x = (k0, m0)" by (cases x)
    let ?next = "if m0 = [] then Suc k0 else k0 + length m0"
    from Some x have ex: "exec p s i = Some (k0, m0)" by simp
    have "\<forall>b\<in>set (matchAll p s ?next). k0 + length m0 \<le> fst b \<and> k0 < fst b"
    proof
      fix b assume b: "b \<in> set (matchAll p s ?next)"
      obtain k m where "b = (k, m)" by (cases b)
      with b matchAll_bounds [of k m p s ?next] have "?next \<le> fst b" by simp
      moreover have "k0 + length m0 \<le> ?next" "k0 < ?next"
        by (cases "m0 = []"; simp)+
      ultimately show "k0 + length m0 \<le> fst b \<and> k0 < fst b" by linarith
    qed
    with "1.IH" [OF Some x [symmetric]] ex show ?thesis
      by (simp add: matchAll.simps [of p s i])
  qed
qed

lemma collect_matches_zero: "collect_matches l 0 xs acc = acc"
  by (induction xs arbitrary: acc) auto

lemma collect_matches_pos:
  "0 < limit \<Longrightarrow> int (length acc) < limit \<Longrightarrow>
     collect_matches l limit xs acc = acc @ take (nat limit - length acc) (map (mk_match l) xs)"
proof (induction xs arbitrary: acc)
  case Nil
  then show ?case by simp
next
  case (Cons x xs)
  obtain c m where x: "x = (c, m)" by (cases x)
  let ?acc' = "acc @ [mk_match l (c, m)]"
  from Cons.prems have pos: "0 < nat limit - length acc" by linarith
  then obtain d where d: "nat limit - length acc = Suc d" by (cases "nat limit - length acc") auto
  show ?case
  proof (cases "int (length ?acc') \<ge> limit")
    case True
    with Cons.prems d have "d = 0" by simp
    with True Cons.prems x d show ?thesis
      by (simp add: mk_match_def with_character_def Let_def)
  next
    case False
    then have "int (length ?acc') < limit" by simp
    moreover from d have "nat limit - Suc (length acc) = d" by linarith
    ultimately show ?thesis
      using Cons.IH [of ?acc'] False x d Cons.prems
      by (simp add: mk_match_def with_character_def Let_def)
  qed
qed

lemma matchRanges_eq:
  "matchRanges l r p i limit =
     (if limit \<le> 0 then []
      else take (nat limit)
        (map (mk_match l)
          (matchAll p (take (character (range_end r)) (text' l)) (max (character (range_start r)) i))))"
  by (simp add: matchRanges_def collect_matches_zero collect_matches_pos Let_def)

lemma mk_match_start [simp]:
  "range_start (mrange (mk_match l cm)) = Position (lineNumber l) (fst cm)"
  by (simp add: mk_match_def isBefore_def)

lemma mk_match_end [simp]:
  "range_end (mrange (mk_match l cm)) = Position (lineNumber l) (fst cm + length (snd cm))"
  by (simp add: mk_match_def isBefore_def)

lemma mk_match_fullMatch [simp]: "fullMatch (mk_match l cm) = snd cm"
  by (simp add: mk_match_def)

text \<open>
  For a positive limit the result holds at most \<open>limit\<close> matches, each of them inside the
  window from \<open>max seekRange.start lastIndex\<close> to \<open>seekRange.end\<close>, with strictly
  increasing start offsets, none starting before the one before it ends.
\<close>

lemma matchRanges_limited:
  assumes "0 < limit"
  shows "length (matchRanges l r p i limit) \<le> nat limit"
    and "\<forall>m\<in>set (matchRanges l r p i limit).
           max (character (range_start r)) i \<le> character (range_start (mrange m)) \<and>
           character (range_start (mrange m)) \<le> character (range_end (mrange m)) \<and>
           character (range_end (mrange m)) \<le> character (range_end r) \<and>
           character (range_end (mrange m)) \<le> length (text' l) \<and>
           character (range_end (mrange m)) = character (range_start (mrange m)) + length (fullMatch m) \<and>
           line (range_start (mrange m)) = lineNumber l \<and> line (range_end (mrange m)) = lineNumber l"
    and "sorted_wrt (\<lambda>a b. character (range_end (mrange a)) \<le> character (range_start (mrange b)) \<and>
            character (range_start (mrange a)) < character (range_start (mrange b)))
          (matchRanges l r p i limit)"
proof -
  let ?s = "take (character (range_end r)) (text' l)"
  let ?ms = "matchAll p ?s (max (character (range_start r)) i)"
  have eq: "matchRanges l r p i limit = take (nat limit) (map (mk_match l) ?ms)"
    using assms by (simp add: matchRanges_eq)
  show "length (matchRanges l r p i limit) \<le> nat limit"
    by (simp add: eq)
  show "\<forall>m\<in>set (matchRanges l r p i limit).
           max (character (range_start r)) i \<le> character (range_start (mrange m)) \<and>
           character (range_start (mrange m)) \<le> character (range_end (mrange m)) \<and>
           character (range_end (mrange m)) \<le> character (range_end r) \<and>
           character (range_end (mrange m)) \<le> length (text' l) \<and>
           character (range_end (mrange m)) = character (range_start (mrange m)) + length (fullMatch m) \<and>
           line (range_start (mrange m)) = lineNumber l \<and> line (range_end (mrange m)) = lineNumber l"
  proof
    fix m assume "m \<in> set (matchRanges l r p i limit)"
    then have "m \<in> set (map (mk_match l) ?ms)"
      unfolding eq by (rule in_set_takeD)
    then obtain k t where kt: "(k, t) \<in> set ?ms" and m: "m = mk_match l (k, t)"
      by auto
    from matchAll_bounds [OF kt] have "max (character (range_start r)) i \<le> k"
      and "k + length t \<le> length ?s" by simp_all
    with m show "max (character (range_start r)) i \<le> character (range_start (mrange m)) \<and>
           character (range_start (mrange m)) \<le> character (range_end (mrange m)) \<and>
           character (range_end (mrange m)) \<le> character (range_end r) \<and>
           character (range_end (mrange m)) \<le> length (text' l) \<and>
           character (range_end (mrange m)) = character (range_start (mrange m)) + length (fullMatch m) \<and>
           line (range_start (mrange m)) = lineNumber l \<and> line (range_end (mrange m)) = lineNumber l"
      by simp
  qed
  have "sorted_wrt (\<lambda>a b. character (range_end (mrange a)) \<le> character (range_start (mrange b)) \<and>
            character (range_start (mrange a)) < character (range_start (mrange b)))
          (map (mk_match l) ?ms)"
    using matchAll_increasing [of p ?s "max (character (range_start r)) i"]
    by (simp add: sorted_wrt_map)
  then show "sorted_wrt (\<lambda>a b. character (range_end (mrange a)) \<le> character (range_start (mrange b)) \<and>
            character (range_start (mrange a)) < character (range_start (mrange b)))
          (matchRanges l r p i limit)"
    unfolding eq by (rule sorted_wrt_take)
qed

text \<open>
  C8, as the code has it. For every limit the result is the first \<open>limit\<close> matches of the
  pattern in the text of the line cut at \<open>seekRange.end\<close>, searched from
  \<open>max seekRange.start lastIndex\<close> on; a negative limit counts as 0. So the result holds
  at most \<open>limit\<close> matches, each of them inside the window from
  \<open>max seekRange.start lastIndex\<close> to \<open>seekRange.end\<close>, from left to right, none starting
  before the one before it ends. With the limit 0 the result is empty: the match is pushed
  inside the test \<^verbatim>\<open>limit && matches.push(...) >= limit\<close>, which does not evaluate the push
  when the limit is 0.
\<close>

theorem matchRanges_first_matches:
  "matchRanges l r p i limit =
     take (nat limit) (map (mk_match l)
       (matchAll p (take (character (range_end r)) (text' l)) (max (character (range_start r)) i))) \<and>
   length (matchRanges l r p i limit) \<le> nat limit \<and>
   matchRanges l r p i 0 = [] \<and>
   (\<forall>m\<in>set (matchRanges l r p i limit).
      max (character (range_start r)) i \<le> character (range_start (mrange m)) \<and>
      character (range_start (mrange m)) \<le> character (range_end (mrange m)) \<and>
      character (range_end (mrange m)) \<le> character (range_end r) \<and>
      character (range_end (mrange m)) \<le> length (text' l) \<and>
      character (range_end (mrange m)) = character (range_start (mrange m)) + length (fullMatch m) \<and>
      line (range_start (mrange m)) = lineNumber l \<and> line (range_end (mrange m)) = lineNumber l) \<and>
   sorted_wrt (\<lambda>a b. character (range_end (mrange a)) \<le> character (range_start (mrange b)) \<and>
                 character (range_start (mrange a)) < character (range_start (mrange b)))
     (matchRanges l r p i limit)"
proof (cases "0 < limit")
  case True
  have "matchRanges l r p i limit =
     take (nat limit) (map (mk_match l)
       (matchAll p (take (character (range_end r)) (text' l)) (max (character (range_start r)) i)))"
    using True by (simp add: matchRanges_eq)
  moreover have "matchRanges l r p i 0 = []"
    by (simp add: matchRanges_eq)
  ultimately show ?thesis
    using matchRanges_limited [OF True, of l r p i] by (intro conjI)
next
  case False
  then show ?thesis
    by (simp add: matchRanges_eq)
qed

theorem matchRanges_first_matches_witness:
  "matchRanges wline (line_range wline) (lit ''Foo'') 0 1 = [fmatch ''Foo'' 3 8 11] \<and>
   fmatch ''Foo'' 3 8 11 \<in> set (matchRanges wline (line_range wline) (lit ''Foo'') 0 1) \<and>
   max (character (range_start (line_range wline))) 0
     \<le> character (range_start (mrange (fmatch ''Foo'' 3 8 11))) \<and>
   character (range_start (mrange (fmatch ''Foo'' 3 8 11)))
     \<le> character (range_end (mrange (fmatch ''Foo'' 3 8 11))) \<and>
   character (range_end (mrange (fmatch ''Foo'' 3 8 11))) \<le> character (range_end (line_range wline)) \<and>
   character (range_end (mrange (fmatch ''Foo'' 3 8 11))) \<le> length (text' wline) \<and>
   character (range_end (mrange (fmatch ''Foo'' 3 8 11))) =
     character (range_start (mrange (fmatch ''Foo'' 3 8 11))) + length (fullMatch (fmatch ''Foo'' 3 8 11)) \<and>
   line (range_start (mrange (fmatch ''Foo'' 3 8 11))) = lineNumber wline \<and>
   line (range_end (mrange (fmatch ''Foo'' 3 8 11))) = lineNumber wline \<and>
   length (matchRanges wline (line_range wline) (lit ''Foo'') 0 1) \<le> nat 1"
proof -
  have r: "matchRanges wline (line_range wline) (lit ''Foo'') 0 1 = [fmatch ''Foo'' 3 8 11]"
    by (simp add: matchRanges_eq wline_def matchAll.simps exec_def lit_def Let_def mk_match_def
        fmatch_def)
  then have mem: "fmatch ''Foo'' 3 8 11 \<in> set (matchRanges wline (line_range wline) (lit ''Foo'') 0 1)"
    by simp
  note W = matchRanges_first_matches [of wline "line_range wline" "lit ''Foo''" 0 1,
      THEN conjunct2, THEN conjunct2, THEN conjunct2, THEN conjunct1, THEN bspec, OF mem]
  note L = matchRanges_first_matches [of wline "line_range wline" "lit ''Foo''" 0 1,
      THEN conjunct2, THEN conjunct1]
  from r mem W L show ?thesis
    by blast
qed

text \<open>
  C8 as stated, with all matches returned for the limit 0, fails on the line
  \<^verbatim>\<open>message Foo { }\<close>: the pattern \<^verbatim>\<open>Foo\<close> has one match in the window of the whole line, the
  search with the limit 1 returns it, and the search with the limit 0 returns nothing.
\<close>

theorem matchRanges_limit_zero_counterexample:
  "matchAll (lit ''Foo'') (take (character (range_end (line_range wline))) (text' wline))
     (max (character (range_start (line_range wline))) 0) = [(8, ''Foo'')] \<and>
   matchRanges wline (line_range wline) (lit ''Foo'') 0 1 = [fmatch ''Foo'' 3 8 11] \<and>
   matchRanges wline (line_range wline) (lit ''Foo'') 0 0 = []"
  apply (intro conjI)
    apply (simp add: wline_def matchAll.simps exec_def lit_def)
   apply (simp add: matchRanges_eq wline_def matchAll.simps exec_def lit_def Let_def mk_match_def
      fmatch_def)
  apply (simp add: matchRanges_eq)
  done

subsection \<open>Comment scanner\<close>

declare lineComments_loop.simps [simp del]

lemma exec_lit:
  "exec (lit w) s i = Some (k, m) \<longleftrightarrow>
     m = w \<and> i \<le> k \<and> prefix w (drop k s) \<and> k \<le> length s \<and>
     (\<forall>j. i \<le> j \<and> j < k \<longrightarrow> \<not> prefix w (drop j s))"
proof
  assume e: "exec (lit w) s i = Some (k, m)"
  from exec_Some [OF e] show "m = w \<and> i \<le> k \<and> prefix w (drop k s) \<and> k \<le> length s \<and>
     (\<forall>j. i \<le> j \<and> j < k \<longrightarrow> \<not> prefix w (drop j s))"
    by (auto simp: lit_def prefix_def split: if_splits)
next
  assume a: "m = w \<and> i \<le> k \<and> prefix w (drop k s) \<and> k \<le> length s \<and>
     (\<forall>j. i \<le> j \<and> j < k \<longrightarrow> \<not> prefix w (drop j s))"
  then have "exec (lit w) s i \<noteq> None"
    by (auto simp: exec_None lit_def)
  then obtain k' m' where e: "exec (lit w) s i = Some (k', m')" by auto
  from exec_Some [OF e] have k': "i \<le> k'" "prefix w (drop k' s)" "m' = w"
    and least: "\<forall>j. i \<le> j \<and> j < k' \<longrightarrow> \<not> prefix w (drop j s)"
    by (auto simp: lit_def prefix_def split: if_splits)
  from a k' least have "k' = k"
    by (meson linorder_neqE_nat)
  with e k' a show "exec (lit w) s i = Some (k, m)" by simp
qed

lemma exec_COMMENT_CLOSE: "exec COMMENT_CLOSE s i = Some (k, m) \<Longrightarrow> m = ''*/''"
  by (simp add: COMMENT_CLOSE_def exec_lit)

lemma with_character_Position [simp]: "with_character (Position n c) a = Position n a"
  by (simp add: with_character_def)

lemma loop_closed_line_comment:
  "exec COMMENT_OPEN (text' l) i = Some (k, ''//'') \<Longrightarrow>
     lineComments_loop d l True i oi rs = Inr (rs @ [comment_token d l k (length (text' l)) True])"
  by (simp add: lineComments_loop.simps [of d l True i] comment_token_def Let_def)

lemma loop_closed_block_open:
  "exec COMMENT_OPEN (text' l) i = Some (k, ''/*'') \<Longrightarrow>
     lineComments_loop d l True i oi rs = lineComments_loop d l False (k + 2) k rs"
  by (simp add: lineComments_loop.simps [of d l True i])

lemma loop_closed_none:
  "exec COMMENT_OPEN (text' l) i = None \<Longrightarrow> lineComments_loop d l True i oi rs = Inr rs"
  by (simp add: lineComments_loop.simps [of d l True i])

lemma loop_open_none:
  "exec COMMENT_CLOSE (text' l) i = None \<Longrightarrow>
     lineComments_loop d l False i oi rs = Inr (rs @ [comment_token d l oi (length (text' l)) False])"
  by (simp add: lineComments_loop.simps [of d l False i] comment_token_def Let_def)

lemma loop_open_close:
  "exec COMMENT_CLOSE (text' l) i = Some (k, m) \<Longrightarrow>
     lineComments_loop d l False i oi rs =
       lineComments_loop d l True (k + 2) oi (rs @ [comment_token d l oi (k + 2) True])"
  by (frule exec_COMMENT_CLOSE)
     (simp add: lineComments_loop.simps [of d l False i] comment_token_def Let_def)

lemma upsert_one:
  "upsert tm [(k, v)] =
     tm\<lparr>tm_tokens := (case tm_tokens tm k of Some old \<Rightarrow> (tm_tokens tm)(k \<mapsto> old @ v)
                                             | None \<Rightarrow> (tm_tokens tm)(k \<mapsto> v))\<rparr>"
  by simp

lemma parseCurrentLineComments_carry:
  "lineComments_loop d (tm_line tm) c (tm_lastIndex tm) 0 [] = Inr rs \<Longrightarrow>
     fst (parseCurrentLineComments d tm c) = Inr (if rs = [] then c else closed (last rs), rs)"
  by (simp add: parseCurrentLineComments_def lineComments_def Let_def)

lemma excludeLineRanges_tail:
  assumes "b \<le> length (text' l)"
  shows "fst (excludeLineRanges l [comment_token d l 0 b True]) =
     Inr (if b < length (text' l)
          then [new_Range (Position (lineNumber l) b) (Position (lineNumber l) (length (text' l)))]
          else [])"
proof -
  have c: "\<forall>t\<in>set [comment_token d l 0 b True]. contains (line_range l) (mrange t)"
    using assms by (simp add: comment_token_def contains_line_range Let_def isBefore_def)
  have sp: "span (comment_token d l 0 b True) = (0, b)"
    by (simp add: span_def start_character_def end_character_def comment_token_def Let_def isBefore_def)
  show ?thesis
    using assms by (simp add: excludeLineRanges_contained(1) [OF c] sp)
qed

text \<open>
  C2. The scanner of one line, in the state \<open>Closed\<close> (\<open>commentClosed = True\<close>) or \<open>Open\<close>,
  at offset \<open>i\<close> with the comments \<open>rs\<close> found so far on the line:
  \<^item> \<open>Closed\<close>, and the next opener from \<open>i\<close> is \<^verbatim>\<open>//\<close> at offset \<open>k\<close>: one closed comment from \<open>k\<close>
    to the end of the line is added and the scan of the line ends;
  \<^item> \<open>Open\<close>, and no \<^verbatim>\<open>*/\<close> from \<open>i\<close> on: one open comment (\<open>closed = False\<close>) from the opening
    offset to the end of the line is added and the scan ends; when the line was entered in the
    state \<open>Open\<close>, the opening offset is 0 and the state handed to the next line is \<open>Open\<close>;
  \<^item> \<open>Open\<close>, and the next \<^verbatim>\<open>*/\<close> from \<open>i\<close> is at offset \<open>k\<close>: one closed comment from the opening
    offset to \<open>k + 2\<close> is added and the scan goes on in the state \<open>Closed\<close> at \<open>k + 2\<close>;
  \<^item> a line whose first opener is \<^verbatim>\<open>/*\<close> at \<open>k\<close> with no \<^verbatim>\<open>*/\<close> after it reports the open comment
    from \<open>k\<close> to its end and hands on the state \<open>Open\<close>; the next line, with \<^verbatim>\<open>*/\<close> at \<open>k\<close> and no
    opener after it, reports the closed comment from 0 to \<open>k + 2\<close> and hands on \<open>Closed\<close>, and
    the ranges left for the search on that line are the text from \<open>k + 2\<close> to its end.
\<close>

theorem comment_scanner_states:
  "(exec COMMENT_OPEN (text' l) i = Some (k, ''//'') \<longrightarrow>
      lineComments_loop d l True i oi rs =
        Inr (rs @ [comment_token d l k (length (text' l)) True])) \<and>
   (exec COMMENT_CLOSE (text' l) i = None \<longrightarrow>
      lineComments_loop d l False i oi rs =
        Inr (rs @ [comment_token d l oi (length (text' l)) False]) \<and>
      (tm_line tm = l \<and> tm_lastIndex tm = i \<longrightarrow>
         fst (parseCurrentLineComments d tm False) =
           Inr (False, [comment_token d l 0 (length (text' l)) False]))) \<and>
   (exec COMMENT_CLOSE (text' l) i = Some (k, m) \<longrightarrow>
      lineComments_loop d l False i oi rs =
        lineComments_loop d l True (k + 2) oi (rs @ [comment_token d l oi (k + 2) True])) \<and>
   (exec COMMENT_OPEN (text' l) i = Some (k, ''/*'') \<and> exec COMMENT_CLOSE (text' l) (k + 2) = None \<and>
    tm_line tm = l \<and> tm_lastIndex tm = i \<longrightarrow>
      fst (parseCurrentLineComments d tm True) =
        Inr (False, [comment_token d l k (length (text' l)) False])) \<and>
   (exec COMMENT_CLOSE (text' l) 0 = Some (k, m) \<and> exec COMMENT_OPEN (text' l) (k + 2) = None \<and>
    tm_line tm = l \<and> tm_lastIndex tm = 0 \<longrightarrow>
      fst (parseCurrentLineComments d tm False) = Inr (True, [comment_token d l 0 (k + 2) True]) \<and>
      fst (excludeLineRanges l [comment_token d l 0 (k + 2) True]) =
        Inr (if k + 2 < length (text' l)
             then [new_Range (Position (lineNumber l) (k + 2))
                             (Position (lineNumber l) (length (text' l)))]
             else []))"
proof (intro conjI impI)
  assume "exec COMMENT_OPEN (text' l) i = Some (k, ''//'')"
  then show "lineComments_loop d l True i oi rs =
        Inr (rs @ [comment_token d l k (length (text' l)) True])"
    by (rule loop_closed_line_comment)
next
  assume "exec COMMENT_CLOSE (text' l) i = None"
  then show "lineComments_loop d l False i oi rs =
        Inr (rs @ [comment_token d l oi (length (text' l)) False])"
    by (rule loop_open_none)
next
  assume e: "exec COMMENT_CLOSE (text' l) i = None" and t: "tm_line tm = l \<and> tm_lastIndex tm = i"
  have "lineComments_loop d (tm_line tm) False (tm_lastIndex tm) 0 [] =
      Inr [comment_token d l 0 (length (text' l)) False]"
    using loop_open_none [OF e, of d 0 "[]"] t by simp
  from parseCurrentLineComments_carry [OF this]
  show "fst (parseCurrentLineComments d tm False) =
           Inr (False, [comment_token d l 0 (length (text' l)) False])"
    by (simp add: comment_token_def Let_def)
next
  assume "exec COMMENT_CLOSE (text' l) i = Some (k, m)"
  then show "lineComments_loop d l False i oi rs =
        lineComments_loop d l True (k + 2) oi (rs @ [comment_token d l oi (k + 2) True])"
    by (rule loop_open_close)
next
  assume a: "exec COMMENT_OPEN (text' l) i = Some (k, ''/*'') \<and> exec COMMENT_CLOSE (text' l) (k + 2) = None \<and>
    tm_line tm = l \<and> tm_lastIndex tm = i"
  then have "lineComments_loop d (tm_line tm) True (tm_lastIndex tm) 0 [] =
      Inr [comment_token d l k (length (text' l)) False]"
    using loop_closed_block_open [of l i k d 0 "[]"] loop_open_none [of l "k + 2" d k "[]"]
    by simp
  from parseCurrentLineComments_carry [OF this]
  show "fst (parseCurrentLineComments d tm True) =
        Inr (False, [comment_token d l k (length (text' l)) False])"
    by (simp add: comment_token_def Let_def)
next
  assume a: "exec COMMENT_CLOSE (text' l) 0 = Some (k, m) \<and> exec COMMENT_OPEN (text' l) (k + 2) = None \<and>
    tm_line tm = l \<and> tm_lastIndex tm = 0"
  then have "lineComments_loop d (tm_line tm) False (tm_lastIndex tm) 0 [] =
      Inr [comment_token d l 0 (k + 2) True]"
    using loop_open_close [of l 0 k m d 0 "[]"]
      loop_closed_none [of l "k + 2" d 0 "[comment_token d l 0 (k + 2) True]"]
    by simp
  from parseCurrentLineComments_carry [OF this]
  show "fst (parseCurrentLineComments d tm False) = Inr (True, [comment_token d l 0 (k + 2) True])"
    by (simp add: comment_token_def Let_def)
next
  assume a: "exec COMMENT_CLOSE (text' l) 0 = Some (k, m) \<and> exec COMMENT_OPEN (text' l) (k + 2) = None \<and>
    tm_line tm = l \<and> tm_lastIndex tm = 0"
  then have "exec (lit ''*/'') (text' l) 0 = Some (k, m)"
    by (simp add: COMMENT_CLOSE_def)
  then have "prefix ''*/'' (drop k (text' l))"
    by (simp add: exec_lit)
  then have "k + 2 \<le> length (text' l)"
    by (auto simp: prefix_def dest!: arg_cong [where f = length])
  then show "fst (excludeLineRanges l [comment_token d l 0 (k + 2) True]) =
        Inr (if k + 2 < length (text' l)
             then [new_Range (Position (lineNumber l) (k + 2))
                             (Position (lineNumber l) (length (text' l)))]
             else [])"
    by (rule excludeLineRanges_tail)
qed

theorem comment_scanner_states_witness:
  "exec COMMENT_OPEN (text' (wdoc_line 2)) 0 = Some (14, ''//'') \<and>
   lineComments_loop wdoc (wdoc_line 2) True 0 0 [] = Inr [comment_token wdoc (wdoc_line 2) 14 21 True] \<and>
   exec COMMENT_CLOSE (text' (wdoc_line 0)) 15 = None \<and>
   lineComments_loop wdoc (wdoc_line 0) False 15 13 [] = Inr [comment_token wdoc (wdoc_line 0) 13 31 False] \<and>
   fst (parseCurrentLineComments wdoc (wstate 0 15) False) =
     Inr (False, [comment_token wdoc (wdoc_line 0) 0 31 False]) \<and>
   exec COMMENT_CLOSE (text' (wdoc_line 1)) 0 = Some (8, ''*/'') \<and>
   lineComments_loop wdoc (wdoc_line 1) False 0 0 [] =
     lineComments_loop wdoc (wdoc_line 1) True 10 0 [comment_token wdoc (wdoc_line 1) 0 10 True] \<and>
   exec COMMENT_OPEN (text' (wdoc_line 0)) 0 = Some (13, ''/*'') \<and>
   fst (parseCurrentLineComments wdoc (wstate 0 0) True) =
     Inr (False, [comment_token wdoc (wdoc_line 0) 13 31 False]) \<and>
   exec COMMENT_OPEN (text' (wdoc_line 1)) 10 = None \<and>
   fst (parseCurrentLineComments wdoc (wstate 1 0) False) =
     Inr (True, [comment_token wdoc (wdoc_line 1) 0 10 True]) \<and>
   fst (excludeLineRanges (wdoc_line 1) [comment_token wdoc (wdoc_line 1) 0 10 True]) =
     Inr [new_Range (Position 1 10) (Position 1 24)]"
proof -
  have len: "length (text' (wdoc_line 0)) = 31" "length (text' (wdoc_line 1)) = 24"
    "length (text' (wdoc_line 2)) = 21" "lineNumber (wdoc_line 1) = 1"
    by (simp_all add: wdoc_line_def wdoc_def)
  have st: "tm_line (wstate 0 15) = wdoc_line 0 \<and> tm_lastIndex (wstate 0 15) = 15"
    "tm_line (wstate 0 0) = wdoc_line 0 \<and> tm_lastIndex (wstate 0 0) = 0"
    "tm_line (wstate 1 0) = wdoc_line 1 \<and> tm_lastIndex (wstate 1 0) = 0"
    by (simp_all add: wstate_def)
  have a: "exec COMMENT_OPEN (text' (wdoc_line 2)) 0 = Some (14, ''//'')"
    by (simp add: exec_def COMMENT_OPEN_def alt_def lit_def wdoc_line_def wdoc_def)
  have b: "exec COMMENT_CLOSE (text' (wdoc_line 0)) 15 = None"
    by (simp add: exec_def COMMENT_CLOSE_def lit_def wdoc_line_def wdoc_def)
  have c: "exec COMMENT_CLOSE (text' (wdoc_line 1)) 0 = Some (8, ''*/'')"
    by (simp add: exec_def COMMENT_CLOSE_def lit_def wdoc_line_def wdoc_def)
  have e: "exec COMMENT_OPEN (text' (wdoc_line 0)) 0 = Some (13, ''/*'')"
    by (simp add: exec_def COMMENT_OPEN_def alt_def lit_def wdoc_line_def wdoc_def)
  have b': "exec COMMENT_CLOSE (text' (wdoc_line 0)) (13 + 2) = None"
    using b by simp
  have f: "exec COMMENT_OPEN (text' (wdoc_line 1)) 10 = None"
    by (simp add: exec_def COMMENT_OPEN_def alt_def lit_def wdoc_line_def wdoc_def)
  have f': "exec COMMENT_OPEN (text' (wdoc_line 1)) (8 + 2) = None"
    using f by simp
  note A = comment_scanner_states [where l = "wdoc_line 2" and i = 0 and k = 14 and d = wdoc
      and oi = 0 and rs = "[]", THEN conjunct1, THEN mp, OF a, unfolded len, simplified]
  note B = comment_scanner_states [where l = "wdoc_line 0" and i = 15 and d = wdoc
      and oi = 13 and rs = "[]" and tm = "wstate 0 15", THEN conjunct2, THEN conjunct1, THEN mp, OF b,
      unfolded len]
  note B1 = B [THEN conjunct1, simplified]
  note B2 = B [THEN conjunct2, THEN mp, OF st(1)]
  note C = comment_scanner_states [where l = "wdoc_line 1" and i = 0 and k = 8 and m = "''*/''"
      and d = wdoc and oi = 0 and rs = "[]", THEN conjunct2, THEN conjunct2, THEN conjunct1, THEN mp,
      OF c, simplified]
  note D = comment_scanner_states [where l = "wdoc_line 0" and i = 0 and k = 13 and d = wdoc
      and tm = "wstate 0 0", THEN conjunct2, THEN conjunct2, THEN conjunct2, THEN conjunct1, THEN mp,
      OF conjI [OF e conjI [OF b' st(2)]], unfolded len]
  note E = comment_scanner_states [where l = "wdoc_line 1" and k = 8 and m = "''*/''" and d = wdoc
      and tm = "wstate 1 0", THEN conjunct2, THEN conjunct2, THEN conjunct2, THEN conjunct2, THEN mp,
      OF conjI [OF c conjI [OF f' st(3)]], unfolded len, simplified]
  from a A b B1 B2 c C e D f E show ?thesis
    by (intro conjI) simp_all
qed

subsection \<open>Lookup tasks\<close>

lemma matchRanges_one:
  "matchRanges l r p i 1 =
     (case exec p (take (character (range_end r)) (text' l)) (max (character (range_start r)) i) of
        None \<Rightarrow> []
      | Some km \<Rightarrow> [mk_match l km])"
  by (simp add: matchRanges_eq matchAll.simps [of p _ "max (character (range_start r)) i"]
      split: option.splits)

lemma matchRanges_two:
  "matchRanges l r p i 2 =
     (let s = take (character (range_end r)) (text' l)
      in case exec p s (max (character (range_start r)) i) of
           None \<Rightarrow> []
         | Some (k, m) \<Rightarrow>
             mk_match l (k, m) #
               (case exec p s (if m = [] then Suc k else k + length m) of
                  None \<Rightarrow> []
                | Some km \<Rightarrow> [mk_match l km]))"
proof -
  have two: "take (nat 2) xs = (case xs of [] \<Rightarrow> [] | x # ys \<Rightarrow> x # (case ys of [] \<Rightarrow> [] | y # _ \<Rightarrow> [y]))"
    for xs :: "matchrange list"
    by (cases xs; simp split: list.splits)
  show ?thesis
    unfolding matchRanges_eq Let_def
    by (simp add: two matchAll.simps [of p _ "max (character (range_start r)) i"]
        split: option.splits)
      (auto simp: matchAll.simps [of p _ "Suc _"] matchAll.simps [of p _ "_ + _"] split: option.splits)
qed

lemma token_loop_success:
  "token_loop tm kind p rs = (Inr v, tm') \<Longrightarrow>
     \<exists>r\<in>set rs. \<exists>m ms. matchRanges (tm_line tm) r p (tm_lastIndex tm) 1 = m # ms \<and>
       v = [(kind, [closed_token m])] \<and>
       tm' = tm\<lparr>tm_lastIndex := character (range_end (mrange m))\<rparr>"
  by (induction rs) (auto split: list.splits)

lemma token_loop_failure:
  "token_loop tm kind p rs = (Inl e, tm') \<Longrightarrow> e = NotFound \<and> tm' = tm"
  by (induction rs) (auto split: list.splits)

lemma token_success:
  "token tm kind ex p = (Inr v, tm') \<Longrightarrow>
     \<exists>m. v = [(kind, [closed_token m])] \<and>
       tm' = tm\<lparr>tm_lastIndex := character (range_end (mrange m))\<rparr>"
  by (auto simp: token_def split: sum.splits dest!: token_loop_success)

lemma token_failure:
  "token tm kind ex p = (Inl e, tm') \<Longrightarrow> (e = NotFound \<or> e = InvalidExcludeRanges) \<and> tm' = tm"
  by (auto simp: token_def split: sum.splits dest!: token_loop_failure)













lemmas fdoc_eval = fdoc_def fline_def fstate_def fmatch_def matchRanges_one matchRanges_two
  exec_def FIELD_TYPE_def qualified_len_def is_ident_start_def is_word_def mk_match_def
  line_range_def isBefore_def Let_def

lemma fdoc_matches_0: "matchRanges (tm_line (fstate 0 0)) (line_range (fline 0)) FIELD_TYPE (tm_lastIndex (fstate 0 0)) 2
    = [fmatch ''required'' 0 2 10, fmatch ''string'' 0 11 17]"
  by (simp add: fdoc_eval)






lemma fdoc_getText:
  "getText fdoc (mrange (fmatch ''required'' 0 2 10)) = ''required''"
  "getText fdoc (mrange (fmatch ''string'' 0 11 17)) = ''string''"
  "getText fdoc (mrange (fmatch ''optional'' 1 2 10)) = ''optional''"
  "getText fdoc (mrange (fmatch ''group'' 1 11 16)) = ''group''"
  "getText fdoc (mrange (fmatch ''message'' 2 2 9)) = ''message''"
  "getText fdoc (mrange (fmatch ''repeated'' 3 2 10)) = ''repeated''"
  by (simp_all add: getText_def fdoc_def fmatch_def isBefore_def)

lemma fdoc_tests:
  "test FIELD_CARDINALITY ''required''" "test FIELD_CARDINALITY ''optional''"
  "test FIELD_CARDINALITY ''repeated''" "\<not> test FIELD_CARDINALITY ''message''"
  "test FIELD_DECLARATION_EXCEPTIONS ''message''"
  by (simp_all add: test_def exec_def FIELD_DECLARATION_EXCEPTIONS_def FIELD_CARDINALITY_def
      REQUIRED_def alt_def lit_def bol_def)


subsection \<open>The scan cursor\<close>

lemma upsert_lastIndex [simp]: "tm_lastIndex (upsert tm v) = tm_lastIndex tm"
  by (induction tm v rule: upsert.induct) simp_all

lemma upsert_line [simp]: "tm_line (upsert tm v) = tm_line tm"
  by (induction tm v rule: upsert.induct) simp_all

lemma matchRanges_end_ge:
  assumes "0 < limit" "m \<in> set (matchRanges l r p i limit)"
  shows "i \<le> character (range_end (mrange m))"
  using matchRanges_limited(2) [OF assms(1), of l r p i] assms(2) by fastforce

lemma token_loop_mono:
  "token_loop tm kind p rs = (res, tm') \<Longrightarrow> tm_lastIndex tm \<le> tm_lastIndex tm'"
proof (induction rs)
  case Nil
  then show ?case by simp
next
  case (Cons r rs)
  show ?case
  proof (cases "matchRanges (tm_line tm) r p (tm_lastIndex tm) 1")
    case Nil
    with Cons show ?thesis by simp
  next
    case (Cons m ms)
    then have "m \<in> set (matchRanges (tm_line tm) r p (tm_lastIndex tm) 1)" by simp
    then have "tm_lastIndex tm \<le> character (range_end (mrange m))"
      by (rule matchRanges_end_ge [rotated]) simp
    with Cons Cons.prems show ?thesis by auto
  qed
qed

lemma token_mono:
  "token tm kind ex p = (res, tm') \<Longrightarrow> tm_lastIndex tm \<le> tm_lastIndex tm'"
  by (auto simp: token_def split: sum.splits dest: token_loop_mono)

lemma enumValueName_mono:
  "enumValueName d tm ex st = (res, tm') \<Longrightarrow> tm_lastIndex tm \<le> tm_lastIndex tm'"
  by (auto simp: enumValueName_def split: prod.splits sum.splits option.splits list.splits if_splits
      dest: token_mono)

lemma fieldType_loop_mono:
  "fieldType_loop d tm cdn rs = (res, tm') \<Longrightarrow> tm_lastIndex tm \<le> tm_lastIndex tm'"
proof (induction rs arbitrary: tm cdn)
  case Nil
  then show ?case by simp
next
  case (Cons r rs)
  let ?lim = "if cdn \<noteq> None then 1 else (2::int)"
  let ?ms = "matchRanges (tm_line tm) r FIELD_TYPE (tm_lastIndex tm) ?lim"
  have pos: "0 < ?lim" by simp
  have ge: "tm_lastIndex tm \<le> character (range_end (mrange m))" if "m \<in> set ?ms" for m
    using matchRanges_end_ge [OF pos that] .
  show ?case
  proof (cases ?ms)
    case Nil
    with Cons.prems have "fieldType_loop d tm cdn rs = (res, tm')" by simp
    from Cons.IH [OF this] show ?thesis .
  next
    case ms: (Cons m1 rest)
    from ms have g1: "tm_lastIndex tm \<le> character (range_end (mrange m1))"
      by (intro ge) simp
    show ?thesis
    proof (cases "cdn = None \<and> test FIELD_CARDINALITY (getText d (mrange m1))")
      case False
      with ms Cons.prems g1 show ?thesis
        by (auto simp: Let_def split: sum.splits if_splits)
    next
      case True
      let ?tm1 = "(upsert tm [(FieldCardinality, [closed_token m1])])
          \<lparr>tm_lastIndex := character (range_end (mrange m1))\<rparr>"
      show ?thesis
      proof (cases rest)
        case Nil
        with ms True Cons.prems have "fieldType_loop d ?tm1 (Some (closed_token m1)) rs = (res, tm')"
          by (simp add: Let_def)
        from Cons.IH [OF this] g1 show ?thesis by simp
      next
        case (Cons m2 rest')
        with ms have "m2 \<in> set ?ms" by simp
        from ge [OF this] have g2: "tm_lastIndex tm \<le> character (range_end (mrange m2))" .
        from ms Cons True Cons.prems g1 g2 show ?thesis
          by (auto simp: Let_def split: sum.splits if_splits)
      qed
    qed
  qed
qed

lemma fieldType_mono:
  "fieldType d tm ex st = (res, tm') \<Longrightarrow> tm_lastIndex tm \<le> tm_lastIndex tm'"
  by (auto simp: fieldType_def Let_def split: sum.splits dest: fieldType_loop_mono)

lemma token_tasks_nondecreasing:
  "nondecreasing enum'" "nondecreasing enumName" "nondecreasing fieldName"
  "nondecreasing message" "nondecreasing messageName" "nondecreasing package"
  "nondecreasing packageName" "nondecreasing required" "nondecreasing rpc"
  "nondecreasing rpcName" "nondecreasing service" "nondecreasing serviceName"
  unfolding nondecreasing_def enum'_def enumName_def fieldName_def message_def messageName_def
    package_def packageName_def required_def rpc_def rpcName_def service_def serviceName_def
  using token_mono by blast+

lemma checked_tasks_nondecreasing:
  "nondecreasing enumValueName" "nondecreasing fieldType"
  unfolding nondecreasing_def using enumValueName_mono fieldType_mono by blast+

lemma getTasks_nondecreasing:
  "getTasks kind = Inr tasks \<Longrightarrow> task \<in> set tasks \<Longrightarrow> nondecreasing task"
  by (cases kind) (auto simp: token_tasks_nondecreasing checked_tasks_nondecreasing)

lemma tasks_loop_mono:
  "\<forall>task\<in>set pending. nondecreasing task \<Longrightarrow>
   tasks_loop d tm pending ex st = (e, tm', rest) \<Longrightarrow>
   tm_lastIndex tm \<le> tm_lastIndex tm' \<and> set rest \<subseteq> set pending"
proof (induction pending arbitrary: tm)
  case Nil
  then show ?case by simp
next
  case (Cons task pending)
  obtain res tm1 where t: "task d tm ex st = (res, tm1)" by (cases "task d tm ex st")
  with Cons.prems(1) have le: "tm_lastIndex tm \<le> tm_lastIndex tm1"
    by (auto simp: nondecreasing_def)
  show ?case
  proof (cases res)
    case (Inl err)
    with t Cons.prems(2) le show ?thesis by (auto split: if_splits)
  next
    case (Inr v)
    with t Cons.prems(2) have "tasks_loop d (upsert tm1 v) pending ex st = (e, tm', rest)" by simp
    from Cons.IH [OF _ this] Cons.prems(1) le show ?thesis by auto
  qed
qed

lemma parseCurrentLineComments_lastIndex:
  "parseCurrentLineComments d tm c = (res, tm') \<Longrightarrow> tm_lastIndex tm' = tm_lastIndex tm"
  by (auto simp: parseCurrentLineComments_def Let_def split: sum.splits)

text \<open>
  C9. While one line is processed, \<^verbatim>\<open>#lastIndex\<close> never decreases: every task of every
  task list leaves it at least as large as it found it, whether the task succeeds or fails
  (a success sets it to the end of a match found at or after it), for every document,
  state, list of comments and \<^verbatim>\<open>searchText\<close>; so does the run of the pending tasks over
  the line, and the scan of the comments does not change it. The tasks left pending by the
  run are again tasks of the list.
\<close>

theorem lastIndex_never_decreases:
  "(getTasks kind = Inr tasks \<and> task \<in> set tasks \<and> task d tm ex st = (res, tm') \<longrightarrow>
      tm_lastIndex tm \<le> tm_lastIndex tm') \<and>
   (getTasks kind = Inr tasks \<and> set pending \<subseteq> set tasks \<and>
    tasks_loop d tm pending ex st = (e, tm', rest) \<longrightarrow>
      tm_lastIndex tm \<le> tm_lastIndex tm' \<and> set rest \<subseteq> set tasks) \<and>
   (parseCurrentLineComments d tm c = (cs, tm') \<longrightarrow> tm_lastIndex tm' = tm_lastIndex tm)"
proof (intro conjI impI)
  assume "getTasks kind = Inr tasks \<and> task \<in> set tasks \<and> task d tm ex st = (res, tm')"
  then show "tm_lastIndex tm \<le> tm_lastIndex tm'"
    using getTasks_nondecreasing [of kind tasks task] by (auto simp: nondecreasing_def)
next
  assume a: "getTasks kind = Inr tasks \<and> set pending \<subseteq> set tasks \<and>
    tasks_loop d tm pending ex st = (e, tm', rest)"
  then have "\<forall>task\<in>set pending. nondecreasing task"
    using getTasks_nondecreasing [of kind tasks] by auto
  from tasks_loop_mono [OF this] a
  show "tm_lastIndex tm \<le> tm_lastIndex tm'" "set rest \<subseteq> set tasks"
    by blast+
next
  assume "parseCurrentLineComments d tm c = (cs, tm')"
  then show "tm_lastIndex tm' = tm_lastIndex tm"
    by (rule parseCurrentLineComments_lastIndex)
qed

lemma fdoc_fieldType_0:
  "fieldType fdoc (fstate 0 0) [] None =
     (Inr [(FieldType, [closed_token (fmatch ''string'' 0 11 17)])],
      (record_cardinality (fstate 0 0) (fmatch ''required'' 0 2 10))\<lparr>tm_lastIndex := 17\<rparr>)"
proof -
  have nil: "tm_tokens (fstate 0 0) FieldCardinality = None" "tm_line (fstate 0 0) = fline 0"
    "text' (fline 0) \<noteq> []"
    by (simp_all add: fstate_def fline_def fdoc_def)
  have ex: "fst (excludeLineRanges (fline 0) []) = Inr [line_range (fline 0)]"
    using excludeLineRanges_whole_line [of "fline 0"] nil by simp
  have ne: "''string'' \<noteq> ''group''" by simp
  have e17: "character (range_end (mrange (fmatch ''string'' 0 11 17))) = 17"
    by (simp add: fmatch_def isBefore_def)
  have "fieldType_loop fdoc (fstate 0 0) None [line_range (fline 0)] =
     (Inr [(FieldType, [closed_token (fmatch ''string'' 0 11 17)])],
      (record_cardinality (fstate 0 0) (fmatch ''required'' 0 2 10))\<lparr>tm_lastIndex := 17\<rparr>)"
    using fdoc_matches_0 ne
    by (simp add: fdoc_getText fdoc_tests e17 record_cardinality_def validateFieldType_def)
  then show ?thesis
    by (simp add: fieldType_def nil ex)
qed

lemma fdoc_fieldName_0:
  assumes "tm_line tm = fline 0" "tm_lastIndex tm = 17"
  shows "fieldName fdoc tm [] None =
     (Inr [(FieldName, [closed_token (fmatch ''foo'' 0 18 21)])], tm\<lparr>tm_lastIndex := 21\<rparr>)"
proof -
  have nil: "text' (fline 0) \<noteq> []"
    by (simp add: fline_def fdoc_def)
  have ex: "fst (excludeLineRanges (fline 0) []) = Inr [line_range (fline 0)]"
    using excludeLineRanges_whole_line [of "fline 0"] nil by simp
  have m: "matchRanges (fline 0) (line_range (fline 0)) IDENTIFIER 17 1 = [fmatch ''foo'' 0 18 21]"
    by (simp add: fdoc_def fline_def fmatch_def matchRanges_one exec_def IDENTIFIER_def
        is_ident_start_def is_word_def mk_match_def line_range_def isBefore_def)
  have e21: "character (range_end (mrange (fmatch ''foo'' 0 18 21))) = 21"
    by (simp add: fmatch_def isBefore_def)
  show ?thesis
    by (simp add: fieldName_def token_def assms ex or_default_def m e21)
qed

lemma fdoc_tasks_loop_0:
  "fst (tasks_loop fdoc (fstate 0 0) [fieldType, fieldName] [] None) = None"
  "tm_lastIndex (fst (snd (tasks_loop fdoc (fstate 0 0) [fieldType, fieldName] [] None))) = 21"
  "tm_tokens (fst (snd (tasks_loop fdoc (fstate 0 0) [fieldType, fieldName] [] None))) FieldName
     = Some [closed_token (fmatch ''foo'' 0 18 21)]"
proof -
  let ?tm1 = "(record_cardinality (fstate 0 0) (fmatch ''required'' 0 2 10))\<lparr>tm_lastIndex := 17\<rparr>"
  let ?tm2 = "upsert ?tm1 [(FieldType, [closed_token (fmatch ''string'' 0 11 17)])]"
  have l: "tm_line ?tm2 = fline 0" "tm_lastIndex ?tm2 = 17"
    by (simp_all add: record_cardinality_def fstate_def)
  have none: "tm_tokens ?tm2 FieldName = None"
    by (simp add: record_cardinality_def fstate_def)
  have run: "tasks_loop fdoc (fstate 0 0) [fieldType, fieldName] [] None =
      (None, upsert (?tm2\<lparr>tm_lastIndex := 21\<rparr>) [(FieldName, [closed_token (fmatch ''foo'' 0 18 21)])], [])"
    by (simp only: tasks_loop.simps fdoc_fieldType_0 fdoc_fieldName_0 [OF l] prod.case sum.case)
  show "fst (tasks_loop fdoc (fstate 0 0) [fieldType, fieldName] [] None) = None"
    by (simp only: run fst_conv)
  show "tm_lastIndex (fst (snd (tasks_loop fdoc (fstate 0 0) [fieldType, fieldName] [] None))) = 21"
    by (simp only: run fst_conv snd_conv upsert_lastIndex) simp
  show "tm_tokens (fst (snd (tasks_loop fdoc (fstate 0 0) [fieldType, fieldName] [] None))) FieldName
     = Some [closed_token (fmatch ''foo'' 0 18 21)]"
    using none by (simp only: run fst_conv snd_conv) simp
qed

theorem lastIndex_never_decreases_witness:
  "getTasks FieldName = Inr [fieldType, fieldName] \<and>
   fieldType fdoc (fstate 0 0) [] None =
     (Inr [(FieldType, [closed_token (fmatch ''string'' 0 11 17)])],
      (record_cardinality (fstate 0 0) (fmatch ''required'' 0 2 10))\<lparr>tm_lastIndex := 17\<rparr>) \<and>
   tm_lastIndex (fstate 0 0) \<le>
     tm_lastIndex ((record_cardinality (fstate 0 0) (fmatch ''required'' 0 2 10))\<lparr>tm_lastIndex := 17\<rparr>) \<and>
   tm_lastIndex (fstate 0 0) \<le>
     tm_lastIndex (fst (snd (tasks_loop fdoc (fstate 0 0) [fieldType, fieldName] [] None))) \<and>
   tm_lastIndex (fst (snd (tasks_loop fdoc (fstate 0 0) [fieldType, fieldName] [] None))) = 21 \<and>
   tm_lastIndex (snd (parseCurrentLineComments fdoc (fstate 0 0) True)) = tm_lastIndex (fstate 0 0)"
proof -
  have g: "getTasks FieldName = Inr [fieldType, fieldName]" by simp
  have mem: "fieldType \<in> set [fieldType, fieldName]" by simp
  have sub: "set [fieldType, fieldName] \<subseteq> set [fieldType, fieldName]" by simp
  have run: "tasks_loop fdoc (fstate 0 0) [fieldType, fieldName] [] None =
      (fst (tasks_loop fdoc (fstate 0 0) [fieldType, fieldName] [] None),
       fst (snd (tasks_loop fdoc (fstate 0 0) [fieldType, fieldName] [] None)),
       snd (snd (tasks_loop fdoc (fstate 0 0) [fieldType, fieldName] [] None)))"
    by simp
  have pc: "parseCurrentLineComments fdoc (fstate 0 0) True =
      (fst (parseCurrentLineComments fdoc (fstate 0 0) True),
       snd (parseCurrentLineComments fdoc (fstate 0 0) True))"
    by simp
  note A = lastIndex_never_decreases [THEN conjunct1, THEN mp, OF conjI [OF g conjI [OF mem fdoc_fieldType_0]]]
  note B = lastIndex_never_decreases [THEN conjunct2, THEN conjunct1, THEN mp,
      OF conjI [OF g conjI [OF sub run]], THEN conjunct1]
  note C = lastIndex_never_decreases [THEN conjunct2, THEN conjunct2, THEN mp, OF pc]
  from g fdoc_fieldType_0 A B fdoc_tasks_loop_0(2) C show ?thesis
    by (intro conjI)
qed

subsection \<open>\<^verbatim>\<open>parseFragment\<close>\<close>

declare lines_loop.simps [simp del]

lemma upsert_other:
  "k \<noteq> kind \<Longrightarrow> tm_tokens (upsert tm [(k, v)]) kind = tm_tokens tm kind"
  by (simp split: option.splits)

lemma token_loop_tokens:
  "token_loop tm k p rs = (res, tm') \<Longrightarrow> tm_tokens tm' = tm_tokens tm"
  by (induction rs) (auto split: list.splits)

lemma token_tokens:
  "token tm k ex p = (res, tm') \<Longrightarrow> tm_tokens tm' = tm_tokens tm"
  by (auto simp: token_def split: sum.splits dest: token_loop_tokens)

lemma token_quiet:
  "token tm k ex p = (Inl e, tm') \<Longrightarrow> tm_tokens tm' kind = tm_tokens tm kind"
  by (simp add: token_tokens)

lemma token_foreign:
  "token tm k ex p = (Inr v, tm') \<Longrightarrow> k \<noteq> kind \<Longrightarrow>
     tm_tokens (upsert tm' v) kind = tm_tokens tm kind"
  by (frule token_success, frule token_tokens) (auto split: option.splits)

lemma enumValueName_quiet:
  "enumValueName d tm ex st = (Inl e, tm') \<Longrightarrow> tm_tokens tm' kind = tm_tokens tm kind"
  by (auto simp: enumValueName_def split: prod.splits sum.splits option.splits list.splits if_splits
      dest: token_tokens)

lemma fieldType_loop_tokens:
  "fieldType_loop d tm cdn rs = (res, tm') \<Longrightarrow> kind \<noteq> FieldCardinality \<Longrightarrow>
     tm_tokens tm' kind = tm_tokens tm kind"
proof (induction rs arbitrary: tm cdn)
  case Nil
  then show ?case by simp
next
  case (Cons r rs)
  let ?ms = "matchRanges (tm_line tm) r FIELD_TYPE (tm_lastIndex tm) (if cdn \<noteq> None then 1 else 2)"
  show ?case
  proof (cases ?ms)
    case Nil
    with Cons.prems have "fieldType_loop d tm cdn rs = (res, tm')" by simp
    from Cons.IH [OF this Cons.prems(2)] show ?thesis .
  next
    case ms: (Cons m1 rest)
    show ?thesis
    proof (cases "cdn = None \<and> test FIELD_CARDINALITY (getText d (mrange m1))")
      case False
      with ms Cons.prems show ?thesis
        by (auto simp: Let_def split: sum.splits if_splits)
    next
      case True
      let ?tm1 = "(upsert tm [(FieldCardinality, [closed_token m1])])
          \<lparr>tm_lastIndex := character (range_end (mrange m1))\<rparr>"
      have t1: "tm_tokens ?tm1 kind = tm_tokens tm kind"
        using Cons.prems(2) by (simp split: option.splits)
      show ?thesis
      proof (cases rest)
        case Nil
        with ms True Cons.prems have "fieldType_loop d ?tm1 (Some (closed_token m1)) rs = (res, tm')"
          by (simp add: Let_def)
        from Cons.IH [OF this Cons.prems(2)] t1 show ?thesis by simp
      next
        case (Cons m2 rest')
        from ms Cons True Cons.prems t1 show ?thesis
          by (auto simp: Let_def split: sum.splits if_splits option.splits)
      qed
    qed
  qed
qed

lemma fieldType_tokens:
  "fieldType d tm ex st = (res, tm') \<Longrightarrow> kind \<noteq> FieldCardinality \<Longrightarrow>
     tm_tokens tm' kind = tm_tokens tm kind"
  by (auto simp: fieldType_def Let_def split: sum.splits dest: fieldType_loop_tokens)

lemma fieldType_loop_value:
  "fieldType_loop d tm cdn rs = (Inr v, tm') \<Longrightarrow> \<exists>t. v = [(FieldType, [t])]"
proof (induction rs arbitrary: tm cdn)
  case Nil
  then show ?case by simp
next
  case (Cons r rs)
  from Cons.prems show ?case
    by (auto simp: Let_def split: list.splits sum.splits if_splits option.splits dest: Cons.IH)
qed

lemma fieldType_foreign:
  assumes "fieldType d tm ex st = (Inr v, tm')" "kind \<noteq> FieldCardinality" "kind \<noteq> FieldType"
  shows "tm_tokens (upsert tm' v) kind = tm_tokens tm kind"
proof -
  from assms(1) obtain t where "v = [(FieldType, [t])]"
    by (auto simp: fieldType_def Let_def split: sum.splits dest: fieldType_loop_value)
  with assms(3) have "tm_tokens (upsert tm' v) kind = tm_tokens tm' kind"
    by (simp split: option.splits)
  with fieldType_tokens [OF assms(1,2)] show ?thesis by simp
qed

lemma getTasks_quiet:
  "getTasks kind = Inr tasks \<Longrightarrow> task \<in> set tasks \<Longrightarrow> quiet task kind"
  unfolding quiet_def
  by (cases kind)
     (auto simp: enum'_def enumName_def fieldName_def message_def messageName_def package_def
        packageName_def required_def rpc_def rpcName_def service_def serviceName_def
        token_quiet enumValueName_quiet fieldType_tokens)

lemma getTasks_foreign:
  "getTasks kind = Inr tasks \<Longrightarrow> task \<in> set (butlast tasks) \<Longrightarrow> foreign task kind"
  unfolding foreign_def
  by (cases kind)
     (auto simp: enum'_def message_def package_def rpc_def service_def token_foreign fieldType_foreign)

lemma tasks_loop_pending:
  "tasks_loop d tm pending r st = (e, tm', pending') \<Longrightarrow> suffix pending' pending"
proof (induction pending arbitrary: tm)
  case Nil
  then show ?case by simp
next
  case (Cons task pending)
  obtain res tm1 where t: "task d tm r st = (res, tm1)" by (cases "task d tm r st")
  show ?case
  proof (cases res)
    case (Inl err)
    with t Cons.prems show ?thesis by (auto split: if_splits)
  next
    case (Inr v)
    with t Cons.prems have "tasks_loop d (upsert tm1 v) pending r st = (e, tm', pending')" by simp
    from Cons.IH [OF this] show ?thesis by (rule suffix_ConsI)
  qed
qed

lemma tasks_loop_keeps_target:
  assumes "\<forall>task\<in>set pending. quiet task kind" "\<forall>task\<in>set (butlast pending). foreign task kind"
    and "tasks_loop d tm pending r st = (e, tm', pending')" "pending' \<noteq> []"
  shows "tm_tokens tm' kind = tm_tokens tm kind"
  using assms
proof (induction pending arbitrary: tm)
  case Nil
  then show ?case by simp
next
  case (Cons task pending)
  obtain res tm1 where t: "task d tm r st = (res, tm1)" by (cases "task d tm r st")
  show ?case
  proof (cases res)
    case (Inl err)
    with t Cons.prems(1,3) show ?thesis
      by (auto simp: quiet_def split: if_splits)
  next
    case (Inr v)
    with t Cons.prems(3) have run: "tasks_loop d (upsert tm1 v) pending r st = (e, tm', pending')"
      by simp
    from tasks_loop_pending [OF run] Cons.prems(4) have ne: "pending \<noteq> []"
      by auto
    with Cons.prems(2) have "foreign task kind" "\<forall>task\<in>set (butlast pending). foreign task kind"
      by simp_all
    with t Inr have "tm_tokens (upsert tm1 v) kind = tm_tokens tm kind"
      by (auto simp: foreign_def)
    moreover from Cons.IH [OF _ \<open>\<forall>task\<in>set (butlast pending). foreign task kind\<close> run Cons.prems(4)]
      Cons.prems(1)
    have "tm_tokens tm' kind = tm_tokens (upsert tm1 v) kind" by simp
    ultimately show ?thesis by simp
  qed
qed

lemma suffix_butlast: "suffix xs ys \<Longrightarrow> set (butlast xs) \<subseteq> set (butlast ys)"
  by (auto simp: suffix_def butlast_append dest: in_set_butlastD)

lemma parseCurrentLineComments_tokens:
  "parseCurrentLineComments d tm c = (res, tm') \<Longrightarrow> kind \<noteq> Comment \<Longrightarrow>
     tm_tokens tm' kind = tm_tokens tm kind"
  by (auto simp: parseCurrentLineComments_def lineComments_def Let_def split: sum.splits option.splits)

lemma lines_loop_exhausted:
  "lineCount d \<le> n \<Longrightarrow> lines_loop d tm kind st pending cc n = (Failed NotFound, tm)"
  by (simp add: lines_loop.simps [of d tm kind st pending cc n])

lemma lines_loop_comment_error:
  "n < lineCount d \<Longrightarrow> parseCurrentLineComments d (at_line d tm n) cc = (Inl e, tm1) \<Longrightarrow>
     lines_loop d tm kind st pending cc n = (Failed e, tm1)"
  by (simp add: lines_loop.simps [of d tm kind st pending cc n] at_line_def)

lemma lines_loop_abort:
  "n < lineCount d \<Longrightarrow>
   parseCurrentLineComments d (at_line d tm n) cc = (Inr (cc', ranges), tm1) \<Longrightarrow>
   tasks_loop d tm1 pending ranges st = (Some e, tm2, pending') \<Longrightarrow>
     lines_loop d tm kind st pending cc n = (Failed e, tm2)"
  by (simp add: lines_loop.simps [of d tm kind st pending cc n] at_line_def)

lemma lines_loop_next:
  "n < lineCount d \<Longrightarrow>
   parseCurrentLineComments d (at_line d tm n) cc = (Inr (cc', ranges), tm1) \<Longrightarrow>
   tasks_loop d tm1 pending ranges st = (None, tm2, pending') \<Longrightarrow>
   tm_tokens tm2 kind = None \<Longrightarrow>
     lines_loop d tm kind st pending cc n =
       lines_loop d (tm2\<lparr>tm_lastIndex := 0\<rparr>) kind st pending' cc' (Suc n)"
  by (simp add: lines_loop.simps [of d tm kind st pending cc n] at_line_def)

lemma lines_loop_found:
  "n < lineCount d \<Longrightarrow>
   parseCurrentLineComments d (at_line d tm n) cc = (Inr (cc', ranges), tm1) \<Longrightarrow>
   tasks_loop d tm1 pending ranges st = (None, tm2, pending') \<Longrightarrow>
   tm_tokens tm2 kind = Some (t # ts) \<Longrightarrow>
     lines_loop d tm kind st pending cc n = (Found (mrange t), tm2)"
  by (simp add: lines_loop.simps [of d tm kind st pending cc n] at_line_def)

lemma lineComments_loop_no_error: "lineComments_loop d l c i oi rs \<noteq> Inl e"
proof (induction d l c i oi rs rule: lineComments_loop.induct)
  case (1 d l commentClosed lastIndex commentOpenIndex ranges)
  let ?p = "if commentClosed then COMMENT_OPEN else COMMENT_CLOSE"
  show ?case
  proof (cases "exec ?p (text' l) lastIndex")
    case None
    then show ?thesis
      by (simp add: lineComments_loop.simps [of d l _ lastIndex] Let_def)
  next
    case (Some x)
    obtain k m where x: "x = (k, m)" by (cases x)
    show ?thesis
    proof (cases commentClosed)
      case False
      with Some x "1.IH"(1) [OF Some x [symmetric]] show ?thesis
        by (simp add: lineComments_loop.simps [of d l _ lastIndex] Let_def)
    next
      case True
      with Some x have "exec COMMENT_OPEN (text' l) lastIndex = Some (k, m)" by simp
      from exec_Some [OF this] have m: "m = ''//'' \<or> m = ''/*''"
        by (auto simp: COMMENT_OPEN_def alt_def lit_def prefix_def split: option.splits if_splits)
      show ?thesis
      proof (cases "m = ''//''")
        case True
        with Some x \<open>commentClosed\<close> show ?thesis
          by (simp add: lineComments_loop.simps [of d l _ lastIndex] Let_def)
      next
        case False
        with m have m': "m = ''/*''" by simp
        with Some x \<open>commentClosed\<close> False "1.IH"(2) [OF Some x [symmetric] _ False m'] show ?thesis
          by (simp add: lineComments_loop.simps [of d l _ lastIndex] Let_def)
      qed
    qed
  qed
qed

lemma parseCurrentLineComments_eval:
  "lineComments_loop d (tm_line tm) c (tm_lastIndex tm) 0 [] = Inr rs \<Longrightarrow>
     parseCurrentLineComments d tm c =
       (Inr (if rs = [] then c else closed (last rs), rs), upsert tm [(Comment, rs)])"
  by (simp add: parseCurrentLineComments_def lineComments_def Let_def)

lemma token_eval:
  assumes "fst (excludeLineRanges (tm_line tm) ex) = Inr [r]"
    and "matchRanges (tm_line tm) r p (tm_lastIndex tm) 1 = [m]"
  shows "token tm k ex p =
     (Inr [(k, [closed_token m])], tm\<lparr>tm_lastIndex := character (range_end (mrange m))\<rparr>)"
  using assms by (simp add: token_def)

lemma token_eval_none:
  assumes "fst (excludeLineRanges (tm_line tm) ex) = Inr [r]"
    and "matchRanges (tm_line tm) r p (tm_lastIndex tm) 1 = []"
  shows "token tm k ex p = (Inl NotFound, tm)"
  using assms by (simp add: token_def)

lemma token_eval_no_range:
  assumes "fst (excludeLineRanges (tm_line tm) ex) = Inr []"
  shows "token tm k ex p = (Inl NotFound, tm)"
  using assms by (simp add: token_def)

text \<open>
  The comments that the scanner finds on a line lie in the line and are ordered from left
  to right. On such an array \<^verbatim>\<open>excludeLineRanges\<close> succeeds, and its sort in place changes
  nothing: the array of comments that the tasks of the first line share with \<^verbatim>\<open>#tokens\<close> is
  left as the scanner built it.
\<close>

lemma on_line:
  assumes "a \<le> b" "b \<le> length (text' l)"
  shows "contains (line_range l) (new_Range (Position (lineNumber l) a) (Position (lineNumber l) b))"
    and "character (range_start (new_Range (Position (lineNumber l) a) (Position (lineNumber l) b))) = a"
    and "character (range_end (new_Range (Position (lineNumber l) a) (Position (lineNumber l) b))) = b"
  using assms by (auto simp: contains_line_range isBefore_def)

lemma ordered_on_snoc:
  assumes "ordered_on l rs" "\<forall>t\<in>set rs. end_character t \<le> a" "a \<le> b" "b \<le> length (text' l)"
    and "mrange t = new_Range (Position (lineNumber l) a) (Position (lineNumber l) b)"
  shows "ordered_on l (rs @ [t])" and "\<forall>u\<in>set (rs @ [t]). end_character u \<le> b"
  using assms on_line [OF assms(3,4)]
  by (auto simp: ordered_on_def sorted_wrt_append start_character_def end_character_def)

lemma lineComments_loop_ordered:
  "lineComments_loop d l c i oi rs = Inr out \<Longrightarrow> ordered_on l rs \<Longrightarrow>
     \<forall>t\<in>set rs. end_character t \<le> (if c then i else oi) \<Longrightarrow>
     (\<not> c \<longrightarrow> oi \<le> i \<and> oi \<le> length (text' l)) \<Longrightarrow> ordered_on l out"
proof (induction d l c i oi rs rule: lineComments_loop.induct)
  case (1 d l commentClosed lastIndex commentOpenIndex ranges)
  let ?p = "if commentClosed then COMMENT_OPEN else COMMENT_CLOSE"
  let ?len = "length (text' l)"
  note out = "1.prems"(1) and ord = "1.prems"(2) and ends = "1.prems"(3) and op = "1.prems"(4)
  show ?case
  proof (cases "exec ?p (text' l) lastIndex")
    case None
    show ?thesis
    proof (cases commentClosed)
      case True
      with None out have "out = ranges"
        by (simp add: lineComments_loop.simps [of d l _ lastIndex])
      with ord show ?thesis by simp
    next
      case False
      with None out obtain t where t: "out = ranges @ [t]"
        "mrange t = new_Range (Position (lineNumber l) commentOpenIndex) (Position (lineNumber l) ?len)"
        by (auto simp: lineComments_loop.simps [of d l _ lastIndex] Let_def)
      from False ends op ordered_on_snoc(1) [OF ord _ _ _ t(2)] t(1) show ?thesis
        by simp
    qed
  next
    case (Some x)
    obtain k m where x: "x = (k, m)" by (cases x)
    from Some x have ex: "exec ?p (text' l) lastIndex = Some (k, m)" by simp
    from exec_Some [OF ex] exec_match_length [OF ex] have k: "lastIndex \<le> k" "k + length m \<le> ?len"
      by simp_all
    show ?thesis
    proof (cases commentClosed)
      case False
      let ?r = "new_Range (with_character (range_start (line_range l)) commentOpenIndex)
          (with_character (range_end (line_range l)) (k + length m))"
      let ?t = "\<lparr>fullMatch = getText d ?r, mrange = ?r, closed = True\<rparr>"
      have mt: "mrange ?t = new_Range (Position (lineNumber l) commentOpenIndex)
          (Position (lineNumber l) (k + length m))"
        by simp
      from False Some x out
      have rec: "lineComments_loop d l True (k + length m) commentOpenIndex (ranges @ [?t]) = Inr out"
        by (simp add: lineComments_loop.simps [of d l _ lastIndex] Let_def)
      from False op k have le: "commentOpenIndex \<le> k + length m" by simp
      from False ends have e: "\<forall>u\<in>set ranges. end_character u \<le> commentOpenIndex" by simp
      note sn = ordered_on_snoc [OF ord e le k(2) mt]
      have "\<forall>t\<in>set (ranges @ [?t]). end_character t \<le> (if True then k + length m else commentOpenIndex)"
        using sn(2) by simp
      from "1.IH"(1) [OF Some x [symmetric] False refl rec sn(1) this]
      show ?thesis
        by simp
    next
      case True
      with ex have "exec COMMENT_OPEN (text' l) lastIndex = Some (k, m)" by simp
      from exec_Some [OF this] have m: "m = ''//'' \<or> m = ''/*''"
        by (auto simp: COMMENT_OPEN_def alt_def lit_def prefix_def split: option.splits if_splits)
      show ?thesis
      proof (cases "m = ''//''")
        case mm: True
        with True Some x out obtain t where t: "out = ranges @ [t]"
          "mrange t = new_Range (Position (lineNumber l) k) (Position (lineNumber l) ?len)"
          by (auto simp: lineComments_loop.simps [of d l _ lastIndex] Let_def)
        from True ends k have e: "\<forall>u\<in>set ranges. end_character u \<le> k" by auto
        from k have "k \<le> ?len" by simp
        from ordered_on_snoc(1) [OF ord e this _ t(2)] t(1) show ?thesis by simp
      next
        case False
        with m have m': "m = ''/*''" by simp
        from True Some x False m' out have rec: "lineComments_loop d l False (k + length m) k ranges = Inr out"
          by (simp add: lineComments_loop.simps [of d l _ lastIndex] Let_def)
        from True ends k have e: "\<forall>u\<in>set ranges. end_character u \<le> k" by auto
        from "1.IH"(2) [OF Some x [symmetric] _ False m' rec ord] True e k show ?thesis
          by simp
      qed
    qed
  qed
qed

lemma ordered_chain:
  assumes "sorted_wrt (\<lambda>p q. snd p \<le> fst q) ps" "\<forall>p\<in>set ps. fst p \<le> snd p"
    and "\<forall>p\<in>set ps. a \<le> fst p \<and> snd p \<le> b" "a \<le> b"
  shows "chain a ps b"
  using assms
proof (induction ps arbitrary: a)
  case Nil
  then show ?case by simp
next
  case (Cons p ps)
  obtain s e where p: "p = (s, e)" by (cases p)
  from Cons.prems p have "chain e ps b"
    by (intro Cons.IH) auto
  with Cons.prems p show ?case by simp
qed

lemma ordered_on_excludeLineRanges:
  assumes "ordered_on l rs"
  shows "snd (excludeLineRanges l rs) = rs" and "\<exists>v. fst (excludeLineRanges l rs) = Inr v"
proof -
  from assms have cont: "\<forall>t\<in>set rs. contains (line_range l) (mrange t)"
    and srt: "sorted_wrt (\<lambda>t u. end_character t \<le> start_character u) rs"
    by (simp_all add: ordered_on_def)
  from cont have wf: "\<forall>t\<in>set rs. start_character t \<le> end_character t \<and> end_character t \<le> length (text' l)"
    by (simp add: contains_line_range start_character_def end_character_def)
  have "sorted_wrt (\<lambda>t u. start_character t \<le> start_character u) rs"
    by (rule sorted_wrt_mono_rel [OF _ srt]) (use wf in fastforce)
  then have "sorted (map start_character rs)"
    by (simp add: sorted_map)
  then have id: "sort_key start_character rs = rs"
    by (rule sort_key_id_if_sorted)
  with cont show "snd (excludeLineRanges l rs) = rs"
    by (simp add: excludeLineRanges_contained(2))
  have "chain 0 (map span rs) (length (text' l))"
    using srt wf by (intro ordered_chain) (auto simp: sorted_wrt_map span_def)
  from gaps_loop_gaps [OF this, of "lineNumber l" "[]"] show "\<exists>v. fst (excludeLineRanges l rs) = Inr v"
    using excludeLineRanges_contained(1) [OF cont] id by simp
qed

lemma parseCurrentLineComments_ordered:
  assumes "parseCurrentLineComments d tm c = (Inr (c', ranges), tm')"
  shows "ordered_on (tm_line tm) ranges" and "tm_line tm' = tm_line tm"
proof -
  from assms obtain rs where rs: "lineComments_loop d (tm_line tm) c (tm_lastIndex tm) 0 [] = Inr rs"
    by (auto simp: parseCurrentLineComments_def lineComments_def split: sum.splits)
  from parseCurrentLineComments_eval [OF rs] assms have eq: "ranges = rs" "tm' = upsert tm [(Comment, rs)]"
    by simp_all
  have "ordered_on (tm_line tm) []"
    by (simp add: ordered_on_def)
  from lineComments_loop_ordered [OF rs this] eq show "ordered_on (tm_line tm) ranges"
    by simp
  from eq show "tm_line tm' = tm_line tm"
    by simp
qed

text \<open>
  C4. The kinds without a task list fail with \<open>NotImplemented\<close>, for every state and start.
  In the loop over the pending tasks of a line, a task that fails with \<open>NotFound\<close> ends the
  loop without an error and stays pending together with the tasks after it, which are not
  run on this line; a task that fails with any other error ends the loop with that error;
  a task that succeeds is taken off the list and its result stored. In the loop over the
  lines, an error of the task loop is the result of the call, unchanged. When the task
  loop ends without an error and leaves a task pending, and the target kind was not
  recorded when the line was entered, the call goes on with the next line, with
  \<^verbatim>\<open>#lastIndex\<close> set to 0, the comment state of the end of the line and the pending tasks;
  the target kind is still not recorded then. When the line number reaches the number of
  lines, the result is \<open>NotFound\<close>. A call on a new \<^verbatim>\<open>TokenMap\<close> with a start line of the
  document enters the loop over the lines with all tasks of the kind pending and the
  target kind not recorded.
\<close>

theorem parseFragment_error_propagation:
  "(kind \<in> {Comment, Enum, FieldCardinality, FieldType, Message, Package, Rpc, Service} \<longrightarrow>
      fst (parseFragment d tm kind n i st) = Failed NotImplemented) \<and>
   (lineCount d \<le> n \<longrightarrow> lines_loop d tm kind st pending cc n = (Failed NotFound, tm)) \<and>
   (task d tm1 ranges st = (Inl NotFound, tm2) \<longrightarrow>
      tasks_loop d tm1 (task # rest) ranges st = (None, tm2, task # rest)) \<and>
   (task d tm1 ranges st = (Inl e, tm2) \<and> e \<noteq> NotFound \<longrightarrow>
      tasks_loop d tm1 (task # rest) ranges st = (Some e, tm2, task # rest)) \<and>
   (task d tm1 ranges st = (Inr v, tm2) \<longrightarrow>
      tasks_loop d tm1 (task # rest) ranges st = tasks_loop d (upsert tm2 v) rest ranges st) \<and>
   (n < lineCount d \<and> parseCurrentLineComments d (at_line d tm n) cc = (Inr (cc', ranges), tm1) \<and>
    tasks_loop d tm1 pending ranges st = (Some e, tm2, pending') \<longrightarrow>
      lines_loop d tm kind st pending cc n = (Failed e, tm2)) \<and>
   (n < lineCount d \<and> parseCurrentLineComments d (at_line d tm n) cc = (Inr (cc', ranges), tm1) \<and>
    tasks_loop d tm1 pending ranges st = (None, tm2, pending') \<and> pending' \<noteq> [] \<and>
    getTasks kind = Inr tasks \<and> suffix pending tasks \<and> tm_tokens tm kind = None \<longrightarrow>
      lines_loop d tm kind st pending cc n =
        lines_loop d (tm2\<lparr>tm_lastIndex := 0\<rparr>) kind st pending' cc' (Suc n) \<and>
      tm_tokens (tm2\<lparr>tm_lastIndex := 0\<rparr>) kind = None \<and> suffix pending' tasks) \<and>
   (new_TokenMap d = Some tm \<and> getTasks kind = Inr tasks \<and> lineAt d n = Some l \<longrightarrow>
      parseFragment d tm kind n i st =
        lines_loop d (tm\<lparr>tm_lastIndex := i, tm_line := l\<rparr>) kind st tasks True n \<and>
      tm_tokens (tm\<lparr>tm_lastIndex := i, tm_line := l\<rparr>) kind = None)"
proof (intro conjI impI)
  assume "kind \<in> {Comment, Enum, FieldCardinality, FieldType, Message, Package, Rpc, Service}"
  then show "fst (parseFragment d tm kind n i st) = Failed NotImplemented"
    by (auto simp: parseFragment_def)
next
  assume "lineCount d \<le> n"
  then show "lines_loop d tm kind st pending cc n = (Failed NotFound, tm)"
    by (rule lines_loop_exhausted)
next
  assume "task d tm1 ranges st = (Inl NotFound, tm2)"
  then show "tasks_loop d tm1 (task # rest) ranges st = (None, tm2, task # rest)"
    by simp
next
  assume "task d tm1 ranges st = (Inl e, tm2) \<and> e \<noteq> NotFound"
  then show "tasks_loop d tm1 (task # rest) ranges st = (Some e, tm2, task # rest)"
    by simp
next
  assume "task d tm1 ranges st = (Inr v, tm2)"
  then show "tasks_loop d tm1 (task # rest) ranges st = tasks_loop d (upsert tm2 v) rest ranges st"
    by simp
next
  assume "n < lineCount d \<and> parseCurrentLineComments d (at_line d tm n) cc = (Inr (cc', ranges), tm1) \<and>
    tasks_loop d tm1 pending ranges st = (Some e, tm2, pending')"
  then show "lines_loop d tm kind st pending cc n = (Failed e, tm2)"
    using lines_loop_abort by blast
next
  assume a: "n < lineCount d \<and> parseCurrentLineComments d (at_line d tm n) cc = (Inr (cc', ranges), tm1) \<and>
    tasks_loop d tm1 pending ranges st = (None, tm2, pending') \<and> pending' \<noteq> [] \<and>
    getTasks kind = Inr tasks \<and> suffix pending tasks \<and> tm_tokens tm kind = None"
  then have kind: "kind \<noteq> Comment"
    by (cases kind) auto
  from a have q: "\<forall>task\<in>set pending. quiet task kind"
    using getTasks_quiet [of kind tasks] set_mono_suffix [of pending tasks] by blast
  from a have f: "\<forall>task\<in>set (butlast pending). foreign task kind"
    using getTasks_foreign [of kind tasks] suffix_butlast [of pending tasks] by blast
  from a have "tm_tokens tm1 kind = tm_tokens (at_line d tm n) kind"
    using parseCurrentLineComments_tokens [OF _ kind] by blast
  moreover from a have "tm_tokens tm2 kind = tm_tokens tm1 kind"
    using tasks_loop_keeps_target [OF q f] by blast
  ultimately have none: "tm_tokens tm2 kind = None"
    using a by (simp add: at_line_def)
  from a show "lines_loop d tm kind st pending cc n =
        lines_loop d (tm2\<lparr>tm_lastIndex := 0\<rparr>) kind st pending' cc' (Suc n)"
    using lines_loop_next [OF _ _ _ none] by blast
  from none show "tm_tokens (tm2\<lparr>tm_lastIndex := 0\<rparr>) kind = None"
    by simp
  from a have "suffix pending' pending"
    using tasks_loop_pending by blast
  with a show "suffix pending' tasks"
    using suffix_order.trans by blast
next
  assume b: "new_TokenMap d = Some tm \<and> getTasks kind = Inr tasks \<and> lineAt d n = Some l"
  then show "parseFragment d tm kind n i st =
      lines_loop d (tm\<lparr>tm_lastIndex := i, tm_line := l\<rparr>) kind st tasks True n"
    by (simp add: parseFragment_def)
  from b show "tm_tokens (tm\<lparr>tm_lastIndex := i, tm_line := l\<rparr>) kind = None"
    by (auto simp: new_TokenMap_def split: option.splits)
qed

lemma mdoc_comments_0:
  assumes "tm_line tm = mline 0" "tm_lastIndex tm = 0"
  shows "parseCurrentLineComments mdoc tm True = (Inr (True, [mcomment]), upsert tm [(Comment, [mcomment])])"
proof -
  have len: "length (text' (mline 0)) = 20"
    by (simp add: mline_def mdoc_def)
  have "exec COMMENT_OPEN (text' (mline 0)) 0 = Some (0, ''//'')"
    by (simp add: exec_def COMMENT_OPEN_def alt_def lit_def mline_def mdoc_def)
  from loop_closed_line_comment [OF this, of mdoc 0 "[]", unfolded len]
  have "lineComments_loop mdoc (tm_line tm) True (tm_lastIndex tm) 0 [] = Inr [mcomment]"
    by (simp only: assms mcomment_def append_Nil)
  from parseCurrentLineComments_eval [OF this] show ?thesis
    by (simp add: mcomment_def comment_token_def Let_def)
qed

lemma mdoc_comments_1:
  assumes "tm_line tm = mline 1" "tm_lastIndex tm = 0"
  shows "parseCurrentLineComments mdoc tm True = (Inr (True, []), upsert tm [(Comment, [])])"
proof -
  have "exec COMMENT_OPEN (text' (mline 1)) 0 = None"
    by (simp add: exec_def COMMENT_OPEN_def alt_def lit_def mline_def mdoc_def)
  from loop_closed_none [OF this, of mdoc 0 "[]"]
  have "lineComments_loop mdoc (tm_line tm) True (tm_lastIndex tm) 0 [] = Inr []"
    by (simp add: assms)
  from parseCurrentLineComments_eval [OF this] show ?thesis
    by simp
qed

lemma mdoc_no_range_0: "fst (excludeLineRanges (mline 0) [mcomment]) = Inr []"
proof -
  have len: "length (text' (mline 0)) = 20"
    by (simp add: mline_def mdoc_def)
  from excludeLineRanges_tail [of 20 "mline 0" mdoc] show ?thesis
    by (simp add: mcomment_def len)
qed

lemma mdoc_range_1: "fst (excludeLineRanges (mline 1) []) = Inr [line_range (mline 1)]"
  using excludeLineRanges_whole_line [of "mline 1"] by (simp add: mline_def mdoc_def)

lemma mdoc_matches_1:
  "matchRanges (mline 1) (line_range (mline 1)) MESSAGE 0 1 = [fmatch ''message'' 1 0 7]"
  "matchRanges (mline 1) (line_range (mline 1)) IDENTIFIER 7 1 = [fmatch ''TrickyMsgName'' 1 8 21]"
  "matchRanges (mline 1) (line_range (mline 1)) REQUIRED 0 1 = []"
  by (simp_all add: mdoc_def mline_def fmatch_def matchRanges_one exec_def MESSAGE_def REQUIRED_def
      lit_def IDENTIFIER_def is_ident_start_def is_word_def mk_match_def line_range_def isBefore_def)

lemma fmatch_end [simp]: "character (range_end (mrange (fmatch s n a (a + length s)))) = a + length s"
  by (simp add: fmatch_def isBefore_def)

lemma mdoc_tasks_0:
  assumes "tm_line tm = mline 0"
  shows "tasks_loop mdoc tm [message, messageName] [mcomment] None = (None, tm, [message, messageName])"
    and "tasks_loop mdoc tm [required] [mcomment] None = (None, tm, [required])"
    and "message mdoc tm [mcomment] None = (Inl NotFound, tm)"
  using assms by (simp_all add: message_def required_def token_eval_no_range mdoc_no_range_0)

lemma mdoc_tasks_1:
  assumes "tm_line tm = mline 1" "tm_lastIndex tm = 0" "tm_tokens tm MessageName = None"
  shows "\<exists>tm'. tasks_loop mdoc tm [message, messageName] [] None = (None, tm', []) \<and>
           tm_tokens tm' MessageName = Some [closed_token (fmatch ''TrickyMsgName'' 1 8 21)]"
proof -
  let ?v1 = "[(Message, [closed_token (fmatch ''message'' 1 0 7)])]"
  let ?tm1 = "upsert (tm\<lparr>tm_lastIndex := 7\<rparr>) ?v1"
  have e7: "character (range_end (mrange (fmatch ''message'' 1 0 7))) = 7"
    and e21: "character (range_end (mrange (fmatch ''TrickyMsgName'' 1 8 21))) = 21"
    by (simp_all add: fmatch_def isBefore_def)
  have x: "fst (excludeLineRanges (tm_line tm) []) = Inr [line_range (mline 1)]"
    by (simp only: assms mdoc_range_1)
  have y: "matchRanges (tm_line tm) (line_range (mline 1)) MESSAGE (tm_lastIndex tm) 1
      = [fmatch ''message'' 1 0 7]"
    by (simp only: assms mdoc_matches_1)
  have a: "message mdoc tm [] None = (Inr ?v1, tm\<lparr>tm_lastIndex := 7\<rparr>)"
    using token_eval [OF x y, of Message] by (simp only: message_def e7)
  have l: "tm_line ?tm1 = mline 1" "tm_lastIndex ?tm1 = 7"
    by (simp_all add: assms)
  have x': "fst (excludeLineRanges (tm_line ?tm1) []) = Inr [line_range (mline 1)]"
    by (simp only: l mdoc_range_1)
  have y': "matchRanges (tm_line ?tm1) (line_range (mline 1)) IDENTIFIER (tm_lastIndex ?tm1) 1
      = [fmatch ''TrickyMsgName'' 1 8 21]"
    by (simp only: l mdoc_matches_1)
  have b: "messageName mdoc ?tm1 [] None =
      (Inr [(MessageName, [closed_token (fmatch ''TrickyMsgName'' 1 8 21)])], ?tm1\<lparr>tm_lastIndex := 21\<rparr>)"
    using token_eval [OF x' y', of MessageName]
    by (simp only: messageName_def or_default_def option.case e21)
  have none: "tm_tokens (?tm1\<lparr>tm_lastIndex := 21\<rparr>) MessageName = None"
    using assms(3) by (simp split: option.splits)
  have run: "tasks_loop mdoc tm [message, messageName] [] None =
      (None, upsert (?tm1\<lparr>tm_lastIndex := 21\<rparr>)
         [(MessageName, [closed_token (fmatch ''TrickyMsgName'' 1 8 21)])], [])"
    by (simp only: tasks_loop.simps a b prod.case sum.case)
  have "tm_tokens (upsert (?tm1\<lparr>tm_lastIndex := 21\<rparr>)
         [(MessageName, [closed_token (fmatch ''TrickyMsgName'' 1 8 21)])]) MessageName
       = Some [closed_token (fmatch ''TrickyMsgName'' 1 8 21)]"
    using none by (simp only: upsert.simps) simp
  with run show ?thesis by blast
qed

lemma mdoc_tasks_required_1:
  assumes "tm_line tm = mline 1" "tm_lastIndex tm = 0"
  shows "tasks_loop mdoc tm [required] [] None = (None, tm, [required])"
proof -
  have x: "fst (excludeLineRanges (tm_line tm) []) = Inr [line_range (mline 1)]"
    by (simp only: assms mdoc_range_1)
  have y: "matchRanges (tm_line tm) (line_range (mline 1)) REQUIRED (tm_lastIndex tm) 1 = []"
    by (simp only: assms mdoc_matches_1)
  from token_eval_none [OF x y, of Required] show ?thesis
    by (simp add: required_def)
qed

lemma fdoc_fieldType_5:
  assumes "tm_line tm = fline 5" "tm_lastIndex tm = 0" "tm_tokens tm FieldCardinality = None"
  shows "fieldType fdoc tm [] None =
     (Inl UnexpectedGroup, record_cardinality tm (fmatch ''repeated'' 5 2 10))"
proof -
  have ne: "text' (fline 5) \<noteq> []"
    by (simp add: fline_def fdoc_def)
  have ex: "fst (excludeLineRanges (fline 5) []) = Inr [line_range (fline 5)]"
    using excludeLineRanges_whole_line [of "fline 5"] ne by simp
  have m: "matchRanges (fline 5) (line_range (fline 5)) FIELD_TYPE 0 2 =
      [fmatch ''repeated'' 5 2 10, fmatch ''group'' 5 11 16]"
    by (simp add: fdoc_eval)
  have g: "getText fdoc (mrange (fmatch ''repeated'' 5 2 10)) = ''repeated''"
    "getText fdoc (mrange (fmatch ''group'' 5 11 16)) = ''group''"
    by (simp_all add: getText_def fdoc_def fmatch_def isBefore_def)
  show ?thesis
    by (simp add: fieldType_def assms ex m g fdoc_tests record_cardinality_def validateFieldType_def)
qed

lemma fdoc_comments_5:
  assumes "tm_line tm = fline 5" "tm_lastIndex tm = 0"
  shows "parseCurrentLineComments fdoc tm True = (Inr (True, []), upsert tm [(Comment, [])])"
proof -
  have "exec COMMENT_OPEN (text' (fline 5)) 0 = None"
    by (simp add: exec_def COMMENT_OPEN_def alt_def lit_def fline_def fdoc_def)
  from loop_closed_none [OF this, of fdoc 0 "[]"]
  have "lineComments_loop fdoc (tm_line tm) True (tm_lastIndex tm) 0 [] = Inr []"
    by (simp add: assms)
  from parseCurrentLineComments_eval [OF this] show ?thesis
    by simp
qed

lemma mdoc_loop_1:
  assumes "tm_lastIndex tm = 0" "tm_tokens tm MessageName = None"
  shows "fst (lines_loop mdoc tm MessageName None [message, messageName] True (Suc 0)) =
     Found (new_Range (Position 1 8) (Position 1 21))"
proof -
  have n: "Suc 0 < lineCount mdoc"
    by (simp add: lineCount_def mdoc_def)
  let ?t0 = "at_line mdoc tm (Suc 0)"
  have l0: "tm_line ?t0 = mline 1" "tm_lastIndex ?t0 = 0"
    by (simp_all add: at_line_def mline_def assms)
  note pc = mdoc_comments_1 [OF l0]
  let ?t1 = "upsert ?t0 [(Comment, [])]"
  have l1: "tm_line ?t1 = mline 1" "tm_lastIndex ?t1 = 0" "tm_tokens ?t1 MessageName = None"
    using assms l0 by (simp_all add: at_line_def split: option.splits)
  from mdoc_tasks_1 [OF l1] obtain tm'
    where run: "tasks_loop mdoc ?t1 [message, messageName] [] None = (None, tm', [])"
      and tok: "tm_tokens tm' MessageName = Some [closed_token (fmatch ''TrickyMsgName'' 1 8 21)]"
    by blast
  from lines_loop_found [OF n pc run tok] show ?thesis
    by (simp add: closed_token_def fmatch_def)
qed

lemma mdoc_required_not_found:
  "fst (parseFragment mdoc mfresh Required 0 0 None) = Failed NotFound"
proof -
  have start: "parseFragment mdoc mfresh Required 0 0 None =
      lines_loop mdoc mfresh Required None [required] True 0"
    by (simp add: parseFragment_def lineAt_def lineCount_def mdoc_def mfresh_def mline_def)
  have n0: "0 < lineCount mdoc" and n1: "Suc 0 < lineCount mdoc" and n2: "lineCount mdoc \<le> Suc (Suc 0)"
    by (simp_all add: lineCount_def mdoc_def)
  have l0: "tm_line (at_line mdoc mfresh 0) = mline 0" "tm_lastIndex (at_line mdoc mfresh 0) = 0"
    by (simp_all add: at_line_def mline_def mfresh_def)
  have s0: "tm_line mstate = mline 0" "tm_tokens mstate Required = None"
    by (simp_all add: mstate_def at_line_def mline_def mfresh_def)
  have step0: "lines_loop mdoc mfresh Required None [required] True 0 =
      lines_loop mdoc (mstate\<lparr>tm_lastIndex := 0\<rparr>) Required None [required] True (Suc 0)"
    using lines_loop_next [OF n0 mdoc_comments_0 [OF l0, folded mstate_def] mdoc_tasks_0(2) [OF s0(1)] s0(2)] .
  let ?t0 = "at_line mdoc (mstate\<lparr>tm_lastIndex := 0\<rparr>) (Suc 0)"
  have l1: "tm_line ?t0 = mline 1" "tm_lastIndex ?t0 = 0"
    by (simp_all add: at_line_def mline_def)
  let ?t1 = "upsert ?t0 [(Comment, [])]"
  have s1: "tm_line ?t1 = mline 1" "tm_lastIndex ?t1 = 0" "tm_tokens ?t1 Required = None"
    using l1 by (simp_all add: mstate_def at_line_def mfresh_def split: option.splits)
  have step1: "lines_loop mdoc (mstate\<lparr>tm_lastIndex := 0\<rparr>) Required None [required] True (Suc 0) =
      lines_loop mdoc (?t1\<lparr>tm_lastIndex := 0\<rparr>) Required None [required] True (Suc (Suc 0))"
    using lines_loop_next [OF n1 mdoc_comments_1 [OF l1] mdoc_tasks_required_1 [OF s1(1,2)] s1(3)] .
  show ?thesis
    by (simp only: start step0 step1 lines_loop_exhausted [OF n2] fst_conv)
qed

lemma fdoc_group_aborts:
  assumes "tm_tokens tm FieldCardinality = None"
  shows "fst (parseFragment fdoc tm FieldName 5 0 None) = Failed UnexpectedGroup"
proof -
  let ?tm0 = "tm\<lparr>tm_lastIndex := 0, tm_line := fline 5\<rparr>"
  have start: "parseFragment fdoc tm FieldName 5 0 None =
      lines_loop fdoc ?tm0 FieldName None [fieldType, fieldName] True 5"
    by (simp add: parseFragment_def lineAt_def lineCount_def fdoc_def fline_def)
  have n: "5 < lineCount fdoc"
    by (simp add: lineCount_def fdoc_def)
  have l0: "tm_line (at_line fdoc ?tm0 5) = fline 5" "tm_lastIndex (at_line fdoc ?tm0 5) = 0"
    by (simp_all add: at_line_def fline_def)
  let ?t1 = "upsert (at_line fdoc ?tm0 5) [(Comment, [])]"
  have l1: "tm_line ?t1 = fline 5" "tm_lastIndex ?t1 = 0" "tm_tokens ?t1 FieldCardinality = None"
    using assms by (simp_all add: at_line_def fline_def split: option.splits)
  have run: "tasks_loop fdoc ?t1 [fieldType, fieldName] [] None =
      (Some UnexpectedGroup, record_cardinality ?t1 (fmatch ''repeated'' 5 2 10), [fieldType, fieldName])"
    by (simp only: tasks_loop.simps fdoc_fieldType_5 [OF l1] prod.case sum.case) simp
  from lines_loop_abort [OF n fdoc_comments_5 [OF l0] run] show ?thesis
    by (simp only: start fst_conv)
qed

theorem parseFragment_error_propagation_witness:
  "Comment \<in> {Comment, Enum, FieldCardinality, FieldType, Message, Package, Rpc, Service} \<and>
   fst (parseFragment mdoc mfresh Comment 0 0 None) = Failed NotImplemented \<and>
   lineCount mdoc \<le> 2 \<and>
   lines_loop mdoc mfresh MessageName None [message, messageName] True 2 = (Failed NotFound, mfresh) \<and>
   message mdoc mstate [mcomment] None = (Inl NotFound, mstate) \<and>
   tasks_loop mdoc mstate [message, messageName] [mcomment] None = (None, mstate, [message, messageName]) \<and>
   fieldType fdoc (fstate 5 0) [] None =
     (Inl UnexpectedGroup, record_cardinality (fstate 5 0) (fmatch ''repeated'' 5 2 10)) \<and>
   UnexpectedGroup \<noteq> NotFound \<and>
   tasks_loop fdoc (fstate 5 0) [fieldType, fieldName] [] None =
     (Some UnexpectedGroup, record_cardinality (fstate 5 0) (fmatch ''repeated'' 5 2 10),
      [fieldType, fieldName]) \<and>
   fieldType fdoc (fstate 0 0) [] None =
     (Inr [(FieldType, [closed_token (fmatch ''string'' 0 11 17)])],
      (record_cardinality (fstate 0 0) (fmatch ''required'' 0 2 10))\<lparr>tm_lastIndex := 17\<rparr>) \<and>
   tasks_loop fdoc (fstate 0 0) [fieldType, fieldName] [] None =
     tasks_loop fdoc
       (upsert ((record_cardinality (fstate 0 0) (fmatch ''required'' 0 2 10))\<lparr>tm_lastIndex := 17\<rparr>)
          [(FieldType, [closed_token (fmatch ''string'' 0 11 17)])])
       [fieldName] [] None \<and>
   5 < lineCount fdoc \<and>
   parseCurrentLineComments fdoc (at_line fdoc (fstate 5 0) 5) True =
     (Inr (True, []), upsert (at_line fdoc (fstate 5 0) 5) [(Comment, [])]) \<and>
   tasks_loop fdoc (upsert (at_line fdoc (fstate 5 0) 5) [(Comment, [])]) [fieldType, fieldName] [] None =
     (Some UnexpectedGroup,
      record_cardinality (upsert (at_line fdoc (fstate 5 0) 5) [(Comment, [])]) (fmatch ''repeated'' 5 2 10),
      [fieldType, fieldName]) \<and>
   lines_loop fdoc (fstate 5 0) FieldName None [fieldType, fieldName] True 5 =
     (Failed UnexpectedGroup,
      record_cardinality (upsert (at_line fdoc (fstate 5 0) 5) [(Comment, [])]) (fmatch ''repeated'' 5 2 10)) \<and>
   0 < lineCount mdoc \<and>
   parseCurrentLineComments mdoc (at_line mdoc mfresh 0) True = (Inr (True, [mcomment]), mstate) \<and>
   [message, messageName] \<noteq> [] \<and>
   getTasks MessageName = Inr [message, messageName] \<and>
   suffix [message, messageName] [message, messageName] \<and>
   tm_tokens mfresh MessageName = None \<and>
   lines_loop mdoc mfresh MessageName None [message, messageName] True 0 =
     lines_loop mdoc (mstate\<lparr>tm_lastIndex := 0\<rparr>) MessageName None [message, messageName] True (Suc 0) \<and>
   new_TokenMap mdoc = Some mfresh \<and>
   lineAt mdoc 0 = Some (mline 0) \<and>
   parseFragment mdoc mfresh MessageName 0 0 None =
     lines_loop mdoc (mfresh\<lparr>tm_lastIndex := 0, tm_line := mline 0\<rparr>) MessageName None
       [message, messageName] True 0 \<and>
   fst (parseFragment mdoc mfresh MessageName 0 0 None) = Found (new_Range (Position 1 8) (Position 1 21)) \<and>
   fst (parseFragment fdoc (fstate 5 0) FieldName 5 0 None) = Failed UnexpectedGroup \<and>
   fst (parseFragment mdoc mfresh Required 0 0 None) = Failed NotFound"
proof -
  have d0: "Comment \<in> {Comment, Enum, FieldCardinality, FieldType, Message, Package, Rpc, Service}"
    by simp
  have c0: "lineCount mdoc \<le> 2"
    by (simp add: lineCount_def mdoc_def)
  have ms: "tm_line mstate = mline 0"
    by (simp add: mstate_def at_line_def mline_def)
  have ne: "UnexpectedGroup \<noteq> NotFound"
    by simp
  have f5: "tm_line (fstate 5 0) = fline 5" "tm_lastIndex (fstate 5 0) = 0"
    "tm_tokens (fstate 5 0) FieldCardinality = None"
    by (simp_all add: fstate_def)
  have n5: "5 < lineCount fdoc"
    by (simp add: lineCount_def fdoc_def)
  let ?t1 = "upsert (at_line fdoc (fstate 5 0) 5) [(Comment, [])]"
  have l0: "tm_line (at_line fdoc (fstate 5 0) 5) = fline 5" "tm_lastIndex (at_line fdoc (fstate 5 0) 5) = 0"
    by (simp_all add: at_line_def fline_def fstate_def)
  have l1: "tm_line ?t1 = fline 5" "tm_lastIndex ?t1 = 0" "tm_tokens ?t1 FieldCardinality = None"
    by (simp_all add: at_line_def fline_def fstate_def)
  have n0: "0 < lineCount mdoc"
    by (simp add: lineCount_def mdoc_def)
  have m0: "tm_line (at_line mdoc mfresh 0) = mline 0" "tm_lastIndex (at_line mdoc mfresh 0) = 0"
    by (simp_all add: at_line_def mline_def mfresh_def)
  have pc0: "parseCurrentLineComments mdoc (at_line mdoc mfresh 0) True = (Inr (True, [mcomment]), mstate)"
    using mdoc_comments_0 [OF m0] by (simp only: mstate_def)
  have nn: "[message, messageName] \<noteq> []"
    by simp
  have gt: "getTasks MessageName = Inr [message, messageName]"
    by simp
  have sf: "suffix [message, messageName] [message, messageName]"
    by simp
  have tn: "tm_tokens mfresh MessageName = None"
    by (simp add: mfresh_def)
  note D = parseFragment_error_propagation [where kind = Comment and d = mdoc and tm = mfresh
      and n = 0 and i = 0 and st = None, THEN conjunct1, THEN mp, OF d0]
  note C = parseFragment_error_propagation [where d = mdoc and n = 2 and tm = mfresh
      and kind = MessageName and st = None and pending = "[message, messageName]" and cc = True,
      THEN conjunct2, THEN conjunct1, THEN mp, OF c0]
  note T1 = parseFragment_error_propagation [where d = mdoc and rest = "[messageName]"
      and task = message and ?tm1.0 = mstate and ranges = "[mcomment]" and st = None and ?tm2.0 = mstate,
      THEN conjunct2, THEN conjunct2, THEN conjunct1, THEN mp, OF mdoc_tasks_0(3) [OF ms]]
  note T2 = parseFragment_error_propagation [where d = fdoc and rest = "[fieldName]"
      and task = fieldType and ?tm1.0 = "fstate 5 0" and ranges = "[]" and st = None
      and e = UnexpectedGroup
      and ?tm2.0 = "record_cardinality (fstate 5 0) (fmatch ''repeated'' 5 2 10)",
      THEN conjunct2, THEN conjunct2, THEN conjunct2, THEN conjunct1, THEN mp,
      OF conjI [OF fdoc_fieldType_5 [OF f5] ne]]
  note T3 = parseFragment_error_propagation [where d = fdoc and rest = "[fieldName]"
      and task = fieldType and ?tm1.0 = "fstate 0 0" and ranges = "[]" and st = None
      and v = "[(FieldType, [closed_token (fmatch ''string'' 0 11 17)])]"
      and ?tm2.0 = "(record_cardinality (fstate 0 0) (fmatch ''required'' 0 2 10))\<lparr>tm_lastIndex := 17\<rparr>",
      THEN conjunct2, THEN conjunct2, THEN conjunct2, THEN conjunct2, THEN conjunct1, THEN mp,
      OF fdoc_fieldType_0]
  note T2' = parseFragment_error_propagation [where d = fdoc and rest = "[fieldName]"
      and task = fieldType and ?tm1.0 = "upsert (at_line fdoc (fstate 5 0) 5) [(Comment, [])]"
      and ranges = "[]" and st = None and e = UnexpectedGroup
      and ?tm2.0 = "record_cardinality (upsert (at_line fdoc (fstate 5 0) 5) [(Comment, [])])
          (fmatch ''repeated'' 5 2 10)",
      THEN conjunct2, THEN conjunct2, THEN conjunct2, THEN conjunct1, THEN mp,
      OF conjI [OF fdoc_fieldType_5 [OF l1] ne]]
  note B = parseFragment_error_propagation [where kind = FieldName and tm = "fstate 5 0"
      and d = fdoc and n = 5 and cc = True and cc' = True and ranges = "[]" and st = None
      and ?tm1.0 = "upsert (at_line fdoc (fstate 5 0) 5) [(Comment, [])]"
      and pending = "[fieldType, fieldName]" and pending' = "[fieldType, fieldName]"
      and e = UnexpectedGroup
      and ?tm2.0 = "record_cardinality (upsert (at_line fdoc (fstate 5 0) 5) [(Comment, [])])
          (fmatch ''repeated'' 5 2 10)",
      THEN conjunct2, THEN conjunct2, THEN conjunct2, THEN conjunct2, THEN conjunct2, THEN conjunct1,
      THEN mp, OF conjI [OF n5 conjI [OF fdoc_comments_5 [OF l0] T2']]]
  note A = parseFragment_error_propagation [where tm = mfresh and d = mdoc and n = 0
      and cc = True and cc' = True and ranges = "[mcomment]" and st = None and ?tm1.0 = mstate
      and ?tm2.0 = mstate and pending = "[message, messageName]"
      and pending' = "[message, messageName]" and kind = MessageName
      and tasks = "[message, messageName]",
      THEN conjunct2, THEN conjunct2, THEN conjunct2, THEN conjunct2, THEN conjunct2, THEN conjunct2,
      THEN conjunct1, THEN mp,
      OF conjI [OF n0 conjI [OF pc0 conjI [OF T1 conjI [OF nn conjI [OF gt conjI [OF sf tn]]]]]],
      THEN conjunct1]
  have nt: "new_TokenMap mdoc = Some mfresh"
    by (simp add: new_TokenMap_def lineAt_def lineCount_def mdoc_def mfresh_def mline_def)
  have la: "lineAt mdoc 0 = Some (mline 0)"
    by (simp add: lineAt_def lineCount_def mdoc_def mline_def)
  note S = parseFragment_error_propagation [where d = mdoc and tm = mfresh and kind = MessageName
      and tasks = "[message, messageName]" and n = 0 and l = "mline 0" and i = 0 and st = None,
      THEN conjunct2, THEN conjunct2, THEN conjunct2, THEN conjunct2, THEN conjunct2, THEN conjunct2,
      THEN conjunct2, THEN mp, OF conjI [OF nt conjI [OF gt la]], THEN conjunct1]
  have same: "mfresh\<lparr>tm_lastIndex := 0, tm_line := mline 0\<rparr> = mfresh"
    by (simp add: mfresh_def)
  have start: "parseFragment mdoc mfresh MessageName 0 0 None =
      lines_loop mdoc mfresh MessageName None [message, messageName] True 0"
    using S by (simp only: same)
  have s1: "tm_lastIndex (mstate\<lparr>tm_lastIndex := 0\<rparr>) = 0"
    "tm_tokens (mstate\<lparr>tm_lastIndex := 0\<rparr>) MessageName = None"
    by (simp_all add: mstate_def at_line_def mfresh_def)
  have E: "fst (parseFragment mdoc mfresh MessageName 0 0 None) =
      Found (new_Range (Position 1 8) (Position 1 21))"
    by (simp only: start A mdoc_loop_1 [OF s1])
  from d0 D c0 C mdoc_tasks_0(3) [OF ms] T1 fdoc_fieldType_5 [OF f5] ne T2 fdoc_fieldType_0 T3
    n5 fdoc_comments_5 [OF l0] T2' B n0 pc0 nn gt sf tn A nt la S E fdoc_group_aborts [OF f5(3)]
    mdoc_required_not_found
  show ?thesis
    by (intro conjI)
qed

subsection \<open>Identifiers that contain a keyword\<close>










end
